theory Spec2Isabelle
  imports Main
begin

section \<open>The provider interface consumed by the module\<close>

text \<open>
  The module \<^verbatim>\<open>cloudfront_origin_pl.go\<close> talks to three collaborators that are not
  part of the repository: the AWS configuration loader, the EC2 client
  (\<^verbatim>\<open>DescribeManagedPrefixLists\<close>, \<^verbatim>\<open>GetManagedPrefixListEntries\<close>) and
  \<^verbatim>\<open>netip.ParsePrefix\<close>.  They are parameters of the model, collected in the record
  \<open>deps\<close>.  A call to the provider may change the provider (\<open>'w\<close> is the state of the
  outside world).  Every function returns, besides its result, the events it caused, in
  order: each call to the EC2 client with its answer, and each assignment to
  \<^verbatim>\<open>s.current\<close>.  Pointers to strings (\<^verbatim>\<open>*string\<close>) are
  \<open>string option\<close>, \<open>None\<close> being \<^verbatim>\<open>nil\<close>.  Calls to the logger have no effect on
  the state of the module and are left out.
\<close>

type_synonym sdk_error = string

datatype LoadOption = WithRegion string | WithSharedConfigProfile string

record Filter =
  Name :: "string option"
  Values :: "string list"

record DescribeManagedPrefixListsInput =
  Filters :: "Filter list"
  di_MaxResults :: "int option"

record ManagedPrefixList =
  pl_PrefixListName :: "string option"
  pl_PrefixListId :: "string option"

record DescribeManagedPrefixListsOutput =
  PrefixLists :: "ManagedPrefixList list"

record GetManagedPrefixListEntriesInput =
  PrefixListId :: "string option"
  MaxResults :: "int option"
  NextToken :: "string option"

record PrefixListEntry =
  Cidr :: "string option"
  Description :: "string option"

record GetManagedPrefixListEntriesOutput =
  Entries :: "PrefixListEntry list"
  out_NextToken :: "string option"

datatype 'p event =
    CallDescribe DescribeManagedPrefixListsInput
                 "sdk_error + DescribeManagedPrefixListsOutput"
  | CallGetEntries GetManagedPrefixListEntriesInput
                   "sdk_error + GetManagedPrefixListEntriesOutput"
  | Install "'p list"

record ('c, 'w, 'p) deps =
  LoadDefaultConfig :: "LoadOption list \<Rightarrow> 'w \<Rightarrow> (sdk_error + 'c) \<times> 'w"
  AssumeRoleProvider :: "'c \<Rightarrow> string \<Rightarrow> 'c"
  DescribeManagedPrefixLists ::
    "'c \<Rightarrow> DescribeManagedPrefixListsInput \<Rightarrow> 'w
       \<Rightarrow> (sdk_error + DescribeManagedPrefixListsOutput) \<times> 'w"
  GetManagedPrefixListEntries ::
    "'c \<Rightarrow> GetManagedPrefixListEntriesInput \<Rightarrow> 'w
       \<Rightarrow> (sdk_error + GetManagedPrefixListEntriesOutput) \<times> 'w"
  ParsePrefix :: "string \<Rightarrow> 'p option"

section \<open>The module state and its errors\<close>

datatype chan = Open | Closed

record 'p Source =
  Region :: string
  PrefixListID :: string
  PrefixListName :: string
  IncludeIPv6 :: bool
  Refresh :: int
  AWSProfile :: string
  RoleARN :: string
  RequireNonEmpty :: bool
  current :: "'p list"
  stopCh :: "chan option"

text \<open>
  Every \<^verbatim>\<open>fmt.Errorf\<close> of the source is a constructor; the arguments are the values
  formatted into the message.
\<close>

datatype error =
    AwsConfigError sdk_error
  | NoPrefixesOnInitialFetch
  | GetEntriesError string sdk_error
  | ResolvedZeroPrefixes
  | DescribeError sdk_error
  | NotFoundError string string

definition defaultRegion :: string where
  "defaultRegion = ''us-east-1''"

definition defaultRefresh :: int where
  "defaultRefresh = 12 * 3600 * 1000000000"

definition defaultPLNameV4 :: string where
  "defaultPLNameV4 = ''com.amazonaws.global.cloudfront.origin-facing''"

definition defaultPLNameV6 :: string where
  "defaultPLNameV6 = ''com.amazonaws.global.cloudfront.origin-facing-ipv6''"

definition maxResultsPerPage :: int where
  "maxResultsPerPage = 100"

section \<open>The read path\<close>

definition snapshot :: "'p Source \<Rightarrow> 'p list" where
  "snapshot s = current s"

definition GetIPRanges :: "'p Source \<Rightarrow> 'p list" where
  "GetIPRanges s = current s"

section \<open>Resolving a prefix list\<close>

definition loadAWSConfig ::
  "('c, 'w, 'p) deps \<Rightarrow> 'p Source \<Rightarrow> 'w \<Rightarrow> (sdk_error + 'c) \<times> 'w" where
  "loadAWSConfig d s w =
     (let opts = [WithRegion (Region s)];
          opts = (if AWSProfile s \<noteq> [] then opts @ [WithSharedConfigProfile (AWSProfile s)]
                  else opts)
      in case LoadDefaultConfig d opts w of
           (Inl err, w') \<Rightarrow> (Inl err, w')
         | (Inr cfg, w') \<Rightarrow>
             (if RoleARN s \<noteq> [] then (Inr (AssumeRoleProvider d cfg (RoleARN s)), w')
              else (Inr cfg, w')))"

definition describeCall ::
  "('c, 'w, 'p) deps \<Rightarrow> 'c \<Rightarrow> DescribeManagedPrefixListsInput \<Rightarrow> 'w
     \<Rightarrow> (sdk_error + DescribeManagedPrefixListsOutput) \<times> 'w \<times> 'p event list" where
  "describeCall d ec2c inp w =
     (case DescribeManagedPrefixLists d ec2c inp w of
        (r, w') \<Rightarrow> (r, w', [CallDescribe inp r]))"

definition getEntriesCall ::
  "('c, 'w, 'p) deps \<Rightarrow> 'c \<Rightarrow> GetManagedPrefixListEntriesInput \<Rightarrow> 'w
     \<Rightarrow> (sdk_error + GetManagedPrefixListEntriesOutput) \<times> 'w \<times> 'p event list" where
  "getEntriesCall d ec2c inp w =
     (case GetManagedPrefixListEntries d ec2c inp w of
        (r, w') \<Rightarrow> (r, w', [CallGetEntries inp r]))"

text \<open>The loop over \<^verbatim>\<open>out.PrefixLists\<close> of \<^verbatim>\<open>resolvePrefixListID\<close>.\<close>

fun scanPrefixLists :: "string \<Rightarrow> string \<Rightarrow> ManagedPrefixList list \<Rightarrow> string \<times> error option" where
  "scanPrefixLists n region [] = ([], Some (NotFoundError n region))"
| "scanPrefixLists n region (pl # pls) =
     (case pl_PrefixListName pl of
        None \<Rightarrow> scanPrefixLists n region pls
      | Some nm \<Rightarrow>
          (if nm = n then
             (case pl_PrefixListId pl of
                None \<Rightarrow> scanPrefixLists n region pls
              | Some i \<Rightarrow> (i, None))
           else scanPrefixLists n region pls))"

text \<open>
  \<^verbatim>\<open>resolvePrefixListID\<close> returns the Go pair of an identifier and an error
  (\<open>None\<close> is \<^verbatim>\<open>nil\<close>).
\<close>

definition resolvePrefixListID ::
  "('c, 'w, 'p) deps \<Rightarrow> 'p Source \<Rightarrow> 'c \<Rightarrow> string \<Rightarrow> string \<Rightarrow> string \<Rightarrow> 'w
     \<Rightarrow> (string \<times> error option) \<times> 'w \<times> 'p event list" where
  "resolvePrefixListID d s ec2c explicitID name defaultName w =
     (if explicitID \<noteq> [] then ((explicitID, None), w, [])
      else
        let n = (if name = [] then defaultName else name) in
        case describeCall d ec2c
               \<lparr>Filters = [\<lparr>Name = Some ''prefix-list-name'', Values = [n]\<rparr>],
                di_MaxResults = Some 100\<rparr> w of
          (Inl err, w', evs) \<Rightarrow> (([], Some (DescribeError err)), w', evs)
        | (Inr out, w', evs) \<Rightarrow> (scanPrefixLists n (Region s) (PrefixLists out), w', evs))"

section \<open>Fetching the entries\<close>

definition pageTokenOrNil :: "string option \<Rightarrow> string option" where
  "pageTokenOrNil t = (case t of None \<Rightarrow> None | Some v \<Rightarrow> if v = [] then None else t)"

text \<open>
  The loop over \<^verbatim>\<open>out.Entries\<close>; the accumulator is the pair of the map \<^verbatim>\<open>seen\<close>
  (used as a set of keys) and the slice \<^verbatim>\<open>all\<close>.
\<close>

fun addEntries ::
  "(string \<Rightarrow> 'p option) \<Rightarrow> PrefixListEntry list \<Rightarrow> string set \<times> 'p list
     \<Rightarrow> string set \<times> 'p list" where
  "addEntries parse [] acc = acc"
| "addEntries parse (e # es) (seen, all) =
     (case Cidr e of
        None \<Rightarrow> addEntries parse es (seen, all)
      | Some c \<Rightarrow>
          (if c \<in> seen then addEntries parse es (seen, all)
           else
             (case parse c of
                None \<Rightarrow> addEntries parse es (seen, all)
              | Some pfx \<Rightarrow> addEntries parse es (insert c seen, all @ [pfx]))))"

text \<open>
  The paging loop of one list.  The provider decides whether it ends, so the loop takes
  fuel: the number of page requests it may still issue.  \<open>None\<close> means that the fuel ran
  out before the provider returned an empty or absent continuation token.
\<close>

fun fetchPages ::
  "nat \<Rightarrow> ('c, 'w, 'p) deps \<Rightarrow> 'c \<Rightarrow> string \<Rightarrow> string option \<Rightarrow> string set \<times> 'p list
     \<Rightarrow> 'w \<Rightarrow> (error + string set \<times> 'p list) option \<times> 'w \<times> 'p event list" where
  "fetchPages 0 d ec2c ident pageToken acc w = (None, w, [])"
| "fetchPages (Suc fuel) d ec2c ident pageToken acc w =
     (case getEntriesCall d ec2c
             \<lparr>PrefixListId = Some ident, MaxResults = Some maxResultsPerPage,
              NextToken = pageTokenOrNil pageToken\<rparr> w of
        (Inl err, w', evs) \<Rightarrow> (Some (Inl (GetEntriesError ident err)), w', evs)
      | (Inr out, w', evs) \<Rightarrow>
          (let acc' = addEntries (ParsePrefix d) (Entries out) acc in
           case out_NextToken out of
             None \<Rightarrow> (Some (Inr acc'), w', evs)
           | Some t \<Rightarrow>
               (if t = [] then (Some (Inr acc'), w', evs)
                else
                  (case fetchPages fuel d ec2c ident (out_NextToken out) acc' w' of
                     (r, w'', evs') \<Rightarrow> (r, w'', evs @ evs')))))"

text \<open>The loop over \<^verbatim>\<open>ids\<close>; every list starts from the token \<^verbatim>\<open>aws.String("")\<close>.\<close>

fun fetchAll ::
  "nat \<Rightarrow> ('c, 'w, 'p) deps \<Rightarrow> 'c \<Rightarrow> string list \<Rightarrow> string set \<times> 'p list
     \<Rightarrow> 'w \<Rightarrow> (error + string set \<times> 'p list) option \<times> 'w \<times> 'p event list" where
  "fetchAll fuel d ec2c [] acc w = (Some (Inr acc), w, [])"
| "fetchAll fuel d ec2c (ident # ids) acc w =
     (case fetchPages fuel d ec2c ident (Some []) acc w of
        (None, w', evs) \<Rightarrow> (None, w', evs)
      | (Some (Inl e), w', evs) \<Rightarrow> (Some (Inl e), w', evs)
      | (Some (Inr acc'), w', evs) \<Rightarrow>
          (case fetchAll fuel d ec2c ids acc' w' of
             (r, w'', evs') \<Rightarrow> (r, w'', evs @ evs')))"

section \<open>One refresh pass\<close>

text \<open>Lines 209 to 226 of \<^verbatim>\<open>refreshOnce\<close>: the identifiers of the lists to fetch.\<close>

definition resolveIDs ::
  "('c, 'w, 'p) deps \<Rightarrow> 'p Source \<Rightarrow> 'c \<Rightarrow> 'w \<Rightarrow> string list \<times> 'w \<times> 'p event list" where
  "resolveIDs d s ec2c w =
     (case resolvePrefixListID d s ec2c (PrefixListID s) (PrefixListName s) defaultPLNameV4 w of
        ((idV4, err), w1, evs1) \<Rightarrow>
          (let ids = (if idV4 \<noteq> [] then [idV4] else []) in
           if IncludeIPv6 s then
             (case resolvePrefixListID d s ec2c [] defaultPLNameV6 defaultPLNameV6 w1 of
                ((idV6, err6), w2, evs2) \<Rightarrow>
                  ((if idV6 \<noteq> [] then ids @ [idV6] else ids), w2, evs1 @ evs2))
           else (ids, w1, evs1)))"

text \<open>
  Lines 203 to 256: everything up to the end of the fetch.  The result is the error of
  the pass, or the slice \<^verbatim>\<open>all\<close>.
\<close>

definition resolveAndFetch ::
  "nat \<Rightarrow> ('c, 'w, 'p) deps \<Rightarrow> 'p Source \<Rightarrow> 'w
     \<Rightarrow> (error + 'p list) option \<times> 'w \<times> 'p event list" where
  "resolveAndFetch fuel d s w =
     (case loadAWSConfig d s w of
        (Inl err, w') \<Rightarrow> (Some (Inl (AwsConfigError err)), w', [])
      | (Inr cfg, w') \<Rightarrow>
          (case resolveIDs d s cfg w' of
             (ids, w1, evs1) \<Rightarrow>
               (case fetchAll fuel d cfg ids ({}, []) w1 of
                  (None, w2, evs2) \<Rightarrow> (None, w2, evs1 @ evs2)
                | (Some (Inl e), w2, evs2) \<Rightarrow> (Some (Inl e), w2, evs1 @ evs2)
                | (Some (Inr (seen, all)), w2, evs2) \<Rightarrow> (Some (Inr all), w2, evs1 @ evs2))))"

text \<open>Lines 258 to 281: what is done with the fetched slice.\<close>

definition installFetched ::
  "'p Source \<Rightarrow> 'p list \<Rightarrow> (error + unit) \<times> 'p Source \<times> 'p event list" where
  "installFetched s all =
     (if length all = 0 then
        (let prev = snapshot s in
         if length prev = 0 \<and> RequireNonEmpty s then (Inl ResolvedZeroPrefixes, s, [])
         else if length prev = 0 then (Inr (), s\<lparr>current := []\<rparr>, [Install []])
         else (Inr (), s, []))
      else (Inr (), s\<lparr>current := all\<rparr>, [Install all]))"

text \<open>
  \<^verbatim>\<open>refreshOnce\<close>: \<open>Some (Inr ())\<close> is the return of \<^verbatim>\<open>nil\<close>, \<open>Some (Inl e)\<close> the
  return of the error \<open>e\<close>, \<open>None\<close> a pass that has not returned within the fuel.
\<close>

definition refreshOnce ::
  "nat \<Rightarrow> ('c, 'w, 'p) deps \<Rightarrow> 'p Source \<Rightarrow> 'w
     \<Rightarrow> (error + unit) option \<times> 'p Source \<times> 'w \<times> 'p event list" where
  "refreshOnce fuel d s w =
     (case resolveAndFetch fuel d s w of
        (None, w', evs) \<Rightarrow> (None, s, w', evs)
      | (Some (Inl e), w', evs) \<Rightarrow> (Some (Inl e), s, w', evs)
      | (Some (Inr all), w', evs) \<Rightarrow>
          (case installFetched s all of (r, s', evs') \<Rightarrow> (Some r, s', w', evs @ evs')))"

section \<open>Start and stop\<close>

text \<open>
  \<^verbatim>\<open>Provision\<close> up to the start of the background refresher; \<open>getenv\<close> is
  \<^verbatim>\<open>os.Getenv\<close>.  On success the channel \<^verbatim>\<open>stopCh\<close> has been made and the refresher
  started; the refresher itself is the transition system of the section on the scheduler.
\<close>

definition Provision ::
  "nat \<Rightarrow> ('c, 'w, 'p) deps \<Rightarrow> (string \<Rightarrow> string) \<Rightarrow> 'p Source \<Rightarrow> 'w
     \<Rightarrow> (error + unit) option \<times> 'p Source \<times> 'w \<times> 'p event list" where
  "Provision fuel d getenv s w =
     (let s1 = (if Region s = [] then
                  (if getenv ''AWS_REGION'' \<noteq> [] then s\<lparr>Region := getenv ''AWS_REGION''\<rparr>
                   else if getenv ''AWS_DEFAULT_REGION'' \<noteq> []
                        then s\<lparr>Region := getenv ''AWS_DEFAULT_REGION''\<rparr>
                   else s\<lparr>Region := defaultRegion\<rparr>)
                else s);
          s2 = (if Refresh s1 = 0 then s1\<lparr>Refresh := defaultRefresh\<rparr> else s1);
          s3 = (if PrefixListID s2 = [] \<and> PrefixListName s2 = []
                then s2\<lparr>PrefixListName := defaultPLNameV4\<rparr> else s2)
      in case refreshOnce fuel d s3 w of
           (None, s4, w', evs) \<Rightarrow> (None, s4, w', evs)
         | (Some (Inl err), s4, w', evs) \<Rightarrow> (Some (Inl err), s4, w', evs)
         | (Some (Inr u), s4, w', evs) \<Rightarrow>
             (if length (snapshot s4) = 0 \<and> RequireNonEmpty s4
              then (Some (Inl NoPrefixesOnInitialFetch), s4, w', evs)
              else (Some (Inr ()), s4\<lparr>stopCh := Some Open\<rparr>, w', evs)))"

text \<open>
  Go's \<^verbatim>\<open>close\<close> panics on a channel that is already closed.  \<^verbatim>\<open>Cleanup\<close> returns
  the panic, or its error result (always \<^verbatim>\<open>nil\<close>) and the new state.
\<close>

datatype panic = CloseOfClosedChannel

definition closeChan :: "chan \<Rightarrow> panic + chan" where
  "closeChan c = (case c of Open \<Rightarrow> Inr Closed | Closed \<Rightarrow> Inl CloseOfClosedChannel)"

definition Cleanup :: "'p Source \<Rightarrow> panic + error option \<times> 'p Source" where
  "Cleanup s =
     (case stopCh s of
        None \<Rightarrow> Inr (None, s)
      | Some c \<Rightarrow>
          (case closeChan c of
             Inl p \<Rightarrow> Inl p
           | Inr c' \<Rightarrow> Inr (None, s\<lparr>stopCh := Some c'\<rparr>)))"

section \<open>Go's address prefixes\<close>

text \<open>
  A model of \<^verbatim>\<open>netip.ParsePrefix\<close> and \<^verbatim>\<open>Prefix.String\<close> of Go's standard library
  (package \<^verbatim>\<open>net/netip\<close>), which the module calls but which is not part of the
  repository.  The theorems about the module hold for every parser; this one is the
  parser of the examples.  An address is its 4 or 16 bytes, an IPv6 address carries its
  zone, and a prefix is an address with the number of bits; \<open>ZeroPrefix\<close> is the zero
  value \<^verbatim>\<open>netip.Prefix{}\<close>, which no string parses to.
\<close>

datatype Addr = Addr4 "nat list" | Addr6 "nat list" string

datatype Prefix = ZeroPrefix | PrefixFrom Addr nat

definition isDigit :: "char \<Rightarrow> bool" where
  "isDigit c \<longleftrightarrow> (48::nat) \<le> of_char c \<and> (of_char c :: nat) \<le> 57"

definition hexVal :: "char \<Rightarrow> nat option" where
  "hexVal c =
     (let n = (of_char c :: nat) in
      if 48 \<le> n \<and> n \<le> 57 then Some (n - 48)
      else if 97 \<le> n \<and> n \<le> 102 then Some (n - 97 + 10)
      else if 65 \<le> n \<and> n \<le> 70 then Some (n - 65 + 10)
      else None)"

definition isHex :: "char \<Rightarrow> bool" where
  "isHex c \<longleftrightarrow> hexVal c \<noteq> None"

fun parseIPv4Fields ::
  "nat \<Rightarrow> nat \<Rightarrow> nat \<Rightarrow> nat list \<Rightarrow> bool \<Rightarrow> bool \<Rightarrow> string \<Rightarrow> nat list option" where
  "parseIPv4Fields val pos digLen octets first prevDot [] =
     (if pos < 3 then None else Some (octets @ [val]))"
| "parseIPv4Fields val pos digLen octets first prevDot (c # cs) =
     (if isDigit c then
        (if digLen = 1 \<and> val = 0 then None
         else
           (let val' = val * 10 + (of_char c - 48) in
            if val' > 255 then None
            else parseIPv4Fields val' pos (digLen + 1) octets False False cs))
      else if c = CHR ''.'' then
        (if first \<or> cs = [] \<or> prevDot then None
         else if pos = 3 then None
         else parseIPv4Fields 0 (pos + 1) 0 (octets @ [val]) False True cs)
      else None)"

definition parseIPv4 :: "string \<Rightarrow> Addr option" where
  "parseIPv4 s = map_option Addr4 (parseIPv4Fields 0 0 0 [] True False s)"

definition hexBytes :: "string \<Rightarrow> nat list" where
  "hexBytes ds =
     (let n = replicate (4 - length ds) 0 @ map (\<lambda>c. the (hexVal c)) ds
      in [n ! 0 * 16 + n ! 1, n ! 2 * 16 + n ! 3])"

fun ipv6Groups ::
  "nat \<Rightarrow> nat list \<Rightarrow> nat option \<Rightarrow> string \<Rightarrow> (nat list \<times> nat option \<times> string) option" where
  "ipv6Groups 0 ip ellipsis s = Some (ip, ellipsis, s)"
| "ipv6Groups (Suc n) ip ellipsis s =
     (let ds = takeWhile isHex s; rest = dropWhile isHex s; hb = hexBytes ds in
      if length ds > 4 then None
      else if length ds = 0 then None
      else if rest \<noteq> [] \<and> hd rest = CHR ''.'' then
        (if ellipsis = None \<and> length ip \<noteq> 12 then None
         else if length ip + 4 > 16 then None
         else
           (case parseIPv4Fields 0 0 0 [] True False s of
              None \<Rightarrow> None
            | Some octets \<Rightarrow> Some (ip @ octets, ellipsis, [])))
      else
        (let ip' = ip @ hb in
         if rest = [] then Some (ip', ellipsis, [])
         else if hd rest \<noteq> CHR '':'' then None
         else if length rest = 1 then None
         else
           (let s1 = tl rest in
            if hd s1 = CHR '':'' then
              (if ellipsis \<noteq> None then None
               else if tl s1 = [] then Some (ip', Some (length ip'), [])
               else ipv6Groups n ip' (Some (length ip')) (tl s1))
            else ipv6Groups n ip' ellipsis s1)))"

definition parseIPv6 :: "string \<Rightarrow> Addr option" where
  "parseIPv6 inp =
     (let s = takeWhile (\<lambda>c. c \<noteq> CHR ''%'') inp;
          hasZone = (s \<noteq> inp);
          zone = drop (length s + 1) inp
      in
      if hasZone \<and> zone = [] then None
      else
        (let lead = (length s \<ge> 2 \<and> s ! 0 = CHR '':'' \<and> s ! 1 = CHR '':'');
             s0 = (if lead then drop 2 s else s);
             ellipsis0 = (if lead then Some 0 else None)
         in
         if lead \<and> s0 = [] then Some (Addr6 (replicate 16 0) zone)
         else
           (case ipv6Groups 8 [] ellipsis0 s0 of
              None \<Rightarrow> None
            | Some (ip, ellipsis, s') \<Rightarrow>
                (if s' \<noteq> [] then None
                 else if length ip < 16 then
                   (case ellipsis of
                      None \<Rightarrow> None
                    | Some e \<Rightarrow>
                        Some (Addr6 (take e ip @ replicate (16 - length ip) 0 @ drop e ip) zone))
                 else if ellipsis \<noteq> None then None
                 else Some (Addr6 ip zone)))))"

definition ParseAddr :: "string \<Rightarrow> Addr option" where
  "ParseAddr s =
     (case find (\<lambda>c. c = CHR ''.'' \<or> c = CHR '':'' \<or> c = CHR ''%'') s of
        None \<Rightarrow> None
      | Some c \<Rightarrow>
          (if c = CHR ''.'' then parseIPv4 s
           else if c = CHR '':'' then parseIPv6 s
           else None))"

definition decimalNumber :: "string \<Rightarrow> nat" where
  "decimalNumber ds = foldl (\<lambda>acc c. acc * 10 + (of_char c - 48)) 0 ds"

definition netip_ParsePrefix :: "string \<Rightarrow> Prefix option" where
  "netip_ParsePrefix s =
     (if CHR ''/'' \<notin> set s then None
      else
        (let bitsStr = rev (takeWhile (\<lambda>c. c \<noteq> CHR ''/'') (rev s));
             addrStr = take (length s - length bitsStr - 1) s
         in
         case ParseAddr addrStr of
           None \<Rightarrow> None
         | Some ip \<Rightarrow>
             (if (case ip of Addr4 b \<Rightarrow> False | Addr6 b z \<Rightarrow> z \<noteq> []) then None
              else if length bitsStr > 1
                      \<and> ((of_char (hd bitsStr) :: nat) < 49 \<or> (of_char (hd bitsStr) :: nat) > 57)
                   then None
              else if bitsStr = [] \<or> \<not> list_all isDigit bitsStr then None
              else
                (let bits = decimalNumber bitsStr;
                     maxBits = (case ip of Addr4 b \<Rightarrow> 32 | Addr6 b z \<Rightarrow> 128)
                 in if bits > maxBits then None else Some (PrefixFrom ip bits)))))"

fun digitsBase :: "nat \<Rightarrow> nat \<Rightarrow> nat \<Rightarrow> string" where
  "digitsBase b 0 n = []"
| "digitsBase b (Suc k) n =
     (if n < b then [''0123456789abcdef'' ! n]
      else digitsBase b k (n div b) @ [''0123456789abcdef'' ! (n mod b)])"

definition itoa :: "nat \<Rightarrow> string" where
  "itoa n = digitsBase 10 3 n"

definition string4 :: "nat list \<Rightarrow> string" where
  "string4 b = itoa (b ! 0) @ ''.'' @ itoa (b ! 1) @ ''.'' @ itoa (b ! 2) @ ''.'' @ itoa (b ! 3)"

definition v6u16 :: "nat list \<Rightarrow> nat \<Rightarrow> nat list" where
  "v6u16 b i = [b ! (2 * i) div 16, b ! (2 * i) mod 16, b ! (2 * i + 1) div 16, b ! (2 * i + 1) mod 16]"

definition isZero16 :: "nat list \<Rightarrow> nat \<Rightarrow> bool" where
  "isZero16 b i \<longleftrightarrow> b ! (2 * i) = 0 \<and> b ! (2 * i + 1) = 0"

definition appendHex :: "nat list \<Rightarrow> string" where
  "appendHex ns =
     (let ds = dropWhile (\<lambda>n. n = 0) ns in
      if ds = [] then ''0'' else map (\<lambda>n. ''0123456789abcdef'' ! n) ds)"

definition zeroRun :: "nat list \<Rightarrow> nat \<Rightarrow> nat" where
  "zeroRun b i = length (takeWhile (isZero16 b) [i ..< 8])"

fun longestZeros :: "nat list \<Rightarrow> nat list \<Rightarrow> (nat \<times> nat) option \<Rightarrow> (nat \<times> nat) option" where
  "longestZeros b [] best = best"
| "longestZeros b (i # is) best =
     (let l = zeroRun b i;
          cur = (case best of None \<Rightarrow> 0 | Some (zs, ze) \<Rightarrow> ze - zs)
      in if l \<ge> 2 \<and> l > cur then longestZeros b is (Some (i, i + l))
         else longestZeros b is best)"

fun fields6 :: "nat list \<Rightarrow> (nat \<times> nat) option \<Rightarrow> nat \<Rightarrow> nat \<Rightarrow> string" where
  "fields6 b z 0 i = []"
| "fields6 b z (Suc fuel) i =
     (if i \<ge> 8 then []
      else
        (case z of
           Some (zs, ze) \<Rightarrow>
             (if i = zs then
                (if ze \<ge> 8 then ''::''
                 else ''::'' @ appendHex (v6u16 b ze) @ fields6 b z fuel (ze + 1))
              else (if i > 0 then '':'' else []) @ appendHex (v6u16 b i) @ fields6 b z fuel (i + 1))
         | None \<Rightarrow> (if i > 0 then '':'' else []) @ appendHex (v6u16 b i) @ fields6 b z fuel (i + 1)))"

definition string6 :: "nat list \<Rightarrow> string \<Rightarrow> string" where
  "string6 b zone =
     fields6 b (longestZeros b [0 ..< 8] None) 8 0 @ (if zone \<noteq> [] then ''%'' @ zone else [])"

definition Is4In6 :: "nat list \<Rightarrow> bool" where
  "Is4In6 b \<longleftrightarrow> take 10 b = replicate 10 0 \<and> b ! 10 = 255 \<and> b ! 11 = 255"

definition Addr_String :: "Addr \<Rightarrow> string" where
  "Addr_String ip =
     (case ip of
        Addr4 b \<Rightarrow> string4 b
      | Addr6 b zone \<Rightarrow>
          (if Is4In6 b then ''::ffff:'' @ string4 (drop 12 b) @ (if zone \<noteq> [] then ''%'' @ zone else [])
           else string6 b zone))"

definition Prefix_String :: "Prefix \<Rightarrow> string" where
  "Prefix_String p =
     (case p of
        ZeroPrefix \<Rightarrow> ''invalid Prefix''
      | PrefixFrom ip bits \<Rightarrow> Addr_String ip @ ''/'' @ itoa bits)"

section \<open>The events of a pass\<close>

definition first_seen :: "'a list \<Rightarrow> 'a list" where
  "first_seen xs = rev (remdups (rev xs))"

definition entryCidrs :: "PrefixListEntry list \<Rightarrow> string list" where
  "entryCidrs es = List.map_filter Cidr es"

fun returnedCidrs :: "'p event list \<Rightarrow> string list" where
  "returnedCidrs [] = []"
| "returnedCidrs (CallGetEntries inp (Inr out) # evs) = entryCidrs (Entries out) @ returnedCidrs evs"
| "returnedCidrs (e # evs) = returnedCidrs evs"

fun describeCalls :: "'p event list \<Rightarrow> DescribeManagedPrefixListsInput list" where
  "describeCalls [] = []"
| "describeCalls (CallDescribe inp r # evs) = inp # describeCalls evs"
| "describeCalls (e # evs) = describeCalls evs"

fun isGetEntries :: "'p event \<Rightarrow> bool" where
  "isGetEntries (CallGetEntries inp r) = True"
| "isGetEntries e = False"

fun isDescribe :: "'p event \<Rightarrow> bool" where
  "isDescribe (CallDescribe inp r) = True"
| "isDescribe e = False"

fun failedGetEntries :: "'p event \<Rightarrow> bool" where
  "failedGetEntries (CallGetEntries inp (Inl err)) = True"
| "failedGetEntries e = False"

fun isInstall :: "'p event \<Rightarrow> bool" where
  "isInstall (Install ps) = True"
| "isInstall e = False"

text \<open>The accumulator after the valid strings \<open>cs\<close> have been processed.\<close>

definition accOf :: "(string \<Rightarrow> 'p option) \<Rightarrow> string list \<Rightarrow> string set \<times> 'p list" where
  "accOf parse cs =
     (set (first_seen (filter (\<lambda>c. parse c \<noteq> None) cs)),
      map (the \<circ> parse) (first_seen (filter (\<lambda>c. parse c \<noteq> None) cs)))"

definition abortedBy :: "'p event list \<Rightarrow> error \<Rightarrow> bool" where
  "abortedBy evs e \<longleftrightarrow>
     (\<exists>pre inp ident err. evs = pre @ [CallGetEntries inp (Inl err)]
        \<and> PrefixListId inp = Some ident \<and> e = GetEntriesError ident err
        \<and> \<not> list_ex failedGetEntries pre)"


text \<open>
  What the provider does for one list, as a relation: started with the continuation
  token \<open>tok\<close> in the state \<open>w\<close>, it serves the pages \<open>outs\<close> one after the other,
  each but the last with a non-empty continuation token that the next request carries,
  the last with an empty or absent one, and is left in the state \<open>w'\<close>.
\<close>

inductive servesPages ::
  "('c, 'w, 'p) deps \<Rightarrow> 'c \<Rightarrow> string \<Rightarrow> string option \<Rightarrow> 'w
     \<Rightarrow> GetManagedPrefixListEntriesOutput list \<Rightarrow> 'w \<Rightarrow> bool"
  for d :: "('c, 'w, 'p) deps" and ec2c :: 'c and ident :: string where
  lastPage:
    "GetManagedPrefixListEntries d ec2c
       \<lparr>PrefixListId = Some ident, MaxResults = Some maxResultsPerPage, NextToken = tok\<rparr> w
       = (Inr out, w')
     \<Longrightarrow> out_NextToken out = None \<or> out_NextToken out = Some []
     \<Longrightarrow> servesPages d ec2c ident tok w [out] w'"
| nextPage:
    "GetManagedPrefixListEntries d ec2c
       \<lparr>PrefixListId = Some ident, MaxResults = Some maxResultsPerPage, NextToken = tok\<rparr> w
       = (Inr out, w1)
     \<Longrightarrow> out_NextToken out = Some t \<Longrightarrow> t \<noteq> []
     \<Longrightarrow> servesPages d ec2c ident (Some t) w1 outs w'
     \<Longrightarrow> servesPages d ec2c ident tok w (out # outs) w'"

text \<open>The requests that fetch these pages, with their answers.\<close>

fun pageEvents ::
  "string \<Rightarrow> string option \<Rightarrow> GetManagedPrefixListEntriesOutput list \<Rightarrow> 'p event list" where
  "pageEvents ident tok [] = []"
| "pageEvents ident tok (out # outs) =
     CallGetEntries
       \<lparr>PrefixListId = Some ident, MaxResults = Some maxResultsPerPage, NextToken = tok\<rparr>
       (Inr out)
     # pageEvents ident (out_NextToken out) outs"

text \<open>An entry is well-formed when it has an address-range string and the string parses.\<close>

definition wellFormed :: "(string \<Rightarrow> 'p option) \<Rightarrow> PrefixListEntry \<Rightarrow> bool" where
  "wellFormed parse e = (case Cidr e of None \<Rightarrow> False | Some c \<Rightarrow> parse c \<noteq> None)"

text \<open>The entries that the successful requests of a pass returned, in order.\<close>

fun returnedEntries :: "'p event list \<Rightarrow> PrefixListEntry list" where
  "returnedEntries [] = []"
| "returnedEntries (CallGetEntries inp (Inr out) # evs) = Entries out @ returnedEntries evs"
| "returnedEntries (e # evs) = returnedEntries evs"

text \<open>
  What the provider does for the lists \<open>ids\<close>, one after the other: it serves the pages
  \<open>outss ! i\<close> for the list \<open>ids ! i\<close>, each list from the absent token.
\<close>

inductive servesLists ::
  "('c, 'w, 'p) deps \<Rightarrow> 'c \<Rightarrow> string list \<Rightarrow> 'w
     \<Rightarrow> GetManagedPrefixListEntriesOutput list list \<Rightarrow> 'w \<Rightarrow> bool"
  for d :: "('c, 'w, 'p) deps" and ec2c :: 'c where
  noLists: "servesLists d ec2c [] w [] w"
| nextList:
    "servesPages d ec2c ident None w outs w1 \<Longrightarrow> servesLists d ec2c ids w1 outss w'
     \<Longrightarrow> servesLists d ec2c (ident # ids) w (outs # outss) w'"

text \<open>The requests that fetch all pages of all these lists, and the entries on the pages.\<close>

fun listEvents ::
  "string list \<Rightarrow> GetManagedPrefixListEntriesOutput list list \<Rightarrow> 'p event list" where
  "listEvents (ident # ids) (outs # outss) = pageEvents ident None outs @ listEvents ids outss"
| "listEvents ids outss = []"

definition servedEntries :: "GetManagedPrefixListEntriesOutput list list \<Rightarrow> PrefixListEntry list" where
  "servedEntries outss = concat (map Entries (concat outss))"

text \<open>
  The prefixes of the well-formed entries among \<open>es\<close>, each address-range string once,
  in the order in which the strings first occur.
\<close>

definition prefixesOf :: "(string \<Rightarrow> 'p option) \<Rightarrow> PrefixListEntry list \<Rightarrow> 'p list" where
  "prefixesOf parse es =
     map (the \<circ> parse) (first_seen (map (the \<circ> Cidr) (filter (wellFormed parse) es)))"

section \<open>A provider for the examples\<close>

text \<open>
  A provider that answers from two tables: the prefix lists it knows, and the page of
  entries for an identifier and a continuation token.  Its name filter matches every
  list whose name starts with the value asked for.  Its state counts the calls it has
  served.
\<close>

definition nameMatches :: "DescribeManagedPrefixListsInput \<Rightarrow> ManagedPrefixList \<Rightarrow> bool" where
  "nameMatches inp pl =
     (case pl_PrefixListName pl of
        None \<Rightarrow> False
      | Some nm \<Rightarrow> list_ex (\<lambda>f. list_ex (\<lambda>v. take (length v) nm = v) (Values f)) (Filters inp))"

definition tableDeps ::
  "ManagedPrefixList list
     \<Rightarrow> (string option \<Rightarrow> string option \<Rightarrow> sdk_error + GetManagedPrefixListEntriesOutput)
     \<Rightarrow> (unit, nat, Prefix) deps" where
  "tableDeps pls pages =
     \<lparr>LoadDefaultConfig = (\<lambda>opts w. (Inr (), w)),
      AssumeRoleProvider = (\<lambda>cfg role. cfg),
      DescribeManagedPrefixLists =
        (\<lambda>cfg inp w. (Inr \<lparr>PrefixLists = filter (nameMatches inp) pls\<rparr>, Suc w)),
      GetManagedPrefixListEntries = (\<lambda>cfg inp w. (pages (PrefixListId inp) (NextToken inp), Suc w)),
      ParsePrefix = netip_ParsePrefix\<rparr>"

definition entry :: "string \<Rightarrow> PrefixListEntry" where
  "entry c = \<lparr>Cidr = Some c, Description = None\<rparr>"

definition exampleSource :: "Prefix Source" where
  "exampleSource =
     \<lparr>Region = ''us-east-1'', PrefixListID = [], PrefixListName = defaultPLNameV4,
      IncludeIPv6 = False, Refresh = defaultRefresh, AWSProfile = [], RoleARN = [],
      RequireNonEmpty = False, current = [], stopCh = None\<rparr>"

definition exampleLists :: "ManagedPrefixList list" where
  "exampleLists =
     [\<lparr>pl_PrefixListName = Some ''com.amazonaws.global.cloudfront.origin-facing-ipv6'',
       pl_PrefixListId = Some ''pl-6''\<rparr>,
      \<lparr>pl_PrefixListName = Some ''com.amazonaws.global.cloudfront.origin-facing'',
       pl_PrefixListId = Some ''pl-4''\<rparr>]"

text \<open>The list \<open>pl-4\<close> has two pages, \<open>{A, B}\<close> and then \<open>{B, C}\<close>.\<close>

definition twoPages ::
  "string option \<Rightarrow> string option \<Rightarrow> sdk_error + GetManagedPrefixListEntriesOutput" where
  "twoPages ident tok =
     (if ident = Some ''pl-4'' \<and> tok = None then
        Inr \<lparr>Entries = [entry ''120.52.22.96/27'', entry ''205.251.249.0/24''],
             out_NextToken = Some ''page2''\<rparr>
      else if ident = Some ''pl-4'' \<and> tok = Some ''page2'' then
        Inr \<lparr>Entries = [entry ''205.251.249.0/24'', entry ''130.176.0.0/17''],
             out_NextToken = None\<rparr>
      else Inl ''InvalidPrefixListID.NotFound'')"

text \<open>The same list, when the request for its second page is throttled.\<close>

definition brokenPages ::
  "string option \<Rightarrow> string option \<Rightarrow> sdk_error + GetManagedPrefixListEntriesOutput" where
  "brokenPages ident tok =
     (if ident = Some ''pl-4'' \<and> tok = None then
        Inr \<lparr>Entries = [entry ''120.52.22.96/27'', entry ''205.251.249.0/24''],
             out_NextToken = Some ''page2''\<rparr>
      else Inl ''RequestLimitExceeded'')"

text \<open>The list \<open>pl-4\<close> has one page with a malformed entry between two well-formed ones.\<close>

definition malformedPage ::
  "string option \<Rightarrow> string option \<Rightarrow> sdk_error + GetManagedPrefixListEntriesOutput" where
  "malformedPage ident tok =
     (if ident = Some ''pl-4'' \<and> tok = None then
        Inr \<lparr>Entries = [entry ''120.52.22.96/27'', entry ''not-a-cidr'',
                        entry ''205.251.249.0/24''],
             out_NextToken = Some []\<rparr>
      else Inl ''InvalidPrefixListID.NotFound'')"

text \<open>The list \<open>pl-4\<close> has one empty page.\<close>

definition emptyPage ::
  "string option \<Rightarrow> string option \<Rightarrow> sdk_error + GetManagedPrefixListEntriesOutput" where
  "emptyPage ident tok =
     (if ident = Some ''pl-4'' \<and> tok = None then Inr \<lparr>Entries = [], out_NextToken = None\<rparr>
      else Inl ''InvalidPrefixListID.NotFound'')"

text \<open>
  Both lists have one page; the IPv6 list spells one prefix in two ways, with and
  without a zero field before the \<open>::\<close>.
\<close>

definition dualStack ::
  "string option \<Rightarrow> string option \<Rightarrow> sdk_error + GetManagedPrefixListEntriesOutput" where
  "dualStack ident tok =
     (if ident = Some ''pl-4'' \<and> tok = None then
        Inr \<lparr>Entries = [entry ''120.52.22.96/27''], out_NextToken = None\<rparr>
      else if ident = Some ''pl-6'' \<and> tok = None then
        Inr \<lparr>Entries = [entry ''2600:9000:3000::/36'', entry ''2600:9000:3000:0::/36''],
             out_NextToken = None\<rparr>
      else Inl ''InvalidPrefixListID.NotFound'')"

text \<open>The events of a pass over these providers, and the prefixes of the two pages.\<close>

definition describeInput :: "string \<Rightarrow> DescribeManagedPrefixListsInput" where
  "describeInput n =
     \<lparr>Filters = [\<lparr>Name = Some ''prefix-list-name'', Values = [n]\<rparr>], di_MaxResults = Some 100\<rparr>"

definition describeV4 :: "Prefix event" where
  "describeV4 =
     CallDescribe (describeInput ''com.amazonaws.global.cloudfront.origin-facing'')
       (Inr \<lparr>PrefixLists = exampleLists\<rparr>)"

definition describeV6 :: "Prefix event" where
  "describeV6 =
     CallDescribe (describeInput ''com.amazonaws.global.cloudfront.origin-facing-ipv6'')
       (Inr \<lparr>PrefixLists =
               [\<lparr>pl_PrefixListName = Some ''com.amazonaws.global.cloudfront.origin-facing-ipv6'',
                 pl_PrefixListId = Some ''pl-6''\<rparr>]\<rparr>)"

definition getInput :: "string \<Rightarrow> string option \<Rightarrow> GetManagedPrefixListEntriesInput" where
  "getInput ident tok = \<lparr>PrefixListId = Some ident, MaxResults = Some 100, NextToken = tok\<rparr>"

definition emptyPassEvents :: "Prefix event list" where
  "emptyPassEvents =
     [describeV4,
      CallGetEntries (getInput ''pl-4'' None) (Inr \<lparr>Entries = [], out_NextToken = None\<rparr>)]"

definition twoPagesEvents :: "Prefix event list" where
  "twoPagesEvents =
     [describeV4,
      CallGetEntries (getInput ''pl-4'' None)
        (Inr \<lparr>Entries = [entry ''120.52.22.96/27'', entry ''205.251.249.0/24''],
              out_NextToken = Some ''page2''\<rparr>),
      CallGetEntries (getInput ''pl-4'' (Some ''page2''))
        (Inr \<lparr>Entries = [entry ''205.251.249.0/24'', entry ''130.176.0.0/17''],
              out_NextToken = None\<rparr>)]"

definition brokenPagesEvents :: "Prefix event list" where
  "brokenPagesEvents =
     [describeV4,
      CallGetEntries (getInput ''pl-4'' None)
        (Inr \<lparr>Entries = [entry ''120.52.22.96/27'', entry ''205.251.249.0/24''],
              out_NextToken = Some ''page2''\<rparr>),
      CallGetEntries (getInput ''pl-4'' (Some ''page2'')) (Inl ''RequestLimitExceeded'')]"

definition malformedPageEvents :: "Prefix event list" where
  "malformedPageEvents =
     [describeV4,
      CallGetEntries (getInput ''pl-4'' None)
        (Inr \<lparr>Entries = [entry ''120.52.22.96/27'', entry ''not-a-cidr'',
                         entry ''205.251.249.0/24''],
              out_NextToken = Some []\<rparr>)]"

definition dualStackGets :: "Prefix event list" where
  "dualStackGets =
     [CallGetEntries (getInput ''pl-4'' None)
        (Inr \<lparr>Entries = [entry ''120.52.22.96/27''], out_NextToken = None\<rparr>),
      CallGetEntries (getInput ''pl-6'' None)
        (Inr \<lparr>Entries = [entry ''2600:9000:3000::/36'', entry ''2600:9000:3000:0::/36''],
              out_NextToken = None\<rparr>)]"

definition pageAB :: GetManagedPrefixListEntriesOutput where
  "pageAB = \<lparr>Entries = [entry ''120.52.22.96/27'', entry ''205.251.249.0/24''],
             out_NextToken = Some ''page2''\<rparr>"

definition pageBC :: GetManagedPrefixListEntriesOutput where
  "pageBC = \<lparr>Entries = [entry ''205.251.249.0/24'', entry ''130.176.0.0/17''],
             out_NextToken = None\<rparr>"

definition examplePrefixes :: "Prefix list" where
  "examplePrefixes =
     [PrefixFrom (Addr4 [120, 52, 22, 96]) 27, PrefixFrom (Addr4 [205, 251, 249, 0]) 24,
      PrefixFrom (Addr4 [130, 176, 0, 0]) 17]"

definition prefix6 :: Prefix where
  "prefix6 = PrefixFrom (Addr6 [38, 0, 144, 0, 48, 0, 0, 0, 0, 0, 0, 0, 0, 0, 0, 0] []) 36"

definition dualStackPrefixes :: "Prefix list" where
  "dualStackPrefixes = [PrefixFrom (Addr4 [120, 52, 22, 96]) 27, prefix6, prefix6]"

text \<open>The pages of the two lists of \<open>dualStack\<close>.\<close>

definition page4 :: GetManagedPrefixListEntriesOutput where
  "page4 = \<lparr>Entries = [entry ''120.52.22.96/27''], out_NextToken = None\<rparr>"

definition page6 :: GetManagedPrefixListEntriesOutput where
  "page6 = \<lparr>Entries = [entry ''2600:9000:3000::/36'', entry ''2600:9000:3000:0::/36''],
            out_NextToken = None\<rparr>"

text \<open>
  The list \<open>pl-4\<close> has one page with a malformed entry between two well-formed entries
  that carry the same string.
\<close>

definition duplicatePage ::
  "string option \<Rightarrow> string option \<Rightarrow> sdk_error + GetManagedPrefixListEntriesOutput" where
  "duplicatePage ident tok =
     (if ident = Some ''pl-4'' \<and> tok = None then
        Inr \<lparr>Entries = [entry ''120.52.22.96/27'', entry ''not-a-cidr'',
                        entry ''120.52.22.96/27''],
             out_NextToken = None\<rparr>
      else Inl ''InvalidPrefixListID.NotFound'')"

definition duplicatePageEvents :: "Prefix event list" where
  "duplicatePageEvents =
     [describeV4,
      CallGetEntries (getInput ''pl-4'' None)
        (Inr \<lparr>Entries = [entry ''120.52.22.96/27'', entry ''not-a-cidr'',
                         entry ''120.52.22.96/27''],
              out_NextToken = None\<rparr>)]"

section \<open>The read path on a heap of arrays\<close>

text \<open>
  For the claims about copies, slices are modelled as Go has them: a slice is a pointer
  to a backing array, a length and a capacity, and the arrays live in a heap that
  allocates increasing addresses.  \<open>zero\<close> is the zero value of \<^verbatim>\<open>netip.Prefix\<close>,
  \<open>growth\<close> the capacity \<^verbatim>\<open>append\<close> asks for when it has to reallocate.  Only the field
  \<^verbatim>\<open>current\<close> of the module matters here.
\<close>

type_synonym addr = nat

record 'p heap =
  cells :: "addr \<Rightarrow> 'p list"
  brk :: addr

record slice =
  ptr :: "addr option"
  len :: nat
  cap :: nat

record SourceH =
  currentH :: slice

definition nilSlice :: slice where
  "nilSlice = \<lparr>ptr = None, len = 0, cap = 0\<rparr>"

definition elems :: "'p heap \<Rightarrow> slice \<Rightarrow> 'p list" where
  "elems h sl = (case ptr sl of None \<Rightarrow> [] | Some a \<Rightarrow> take (len sl) (cells h a))"

text \<open>\<^verbatim>\<open>make([]T, n)\<close>: a new array of \<open>n\<close> zero values.\<close>

definition makeSlice :: "'p \<Rightarrow> nat \<Rightarrow> 'p heap \<Rightarrow> slice \<times> 'p heap" where
  "makeSlice zero n h =
     (\<lparr>ptr = Some (brk h), len = n, cap = n\<rparr>,
      h\<lparr>cells := (cells h)(brk h := replicate n zero), brk := Suc (brk h)\<rparr>)"

text \<open>\<^verbatim>\<open>copy(dst, src)\<close>: the first \<open>min (len dst) (len src)\<close> elements.\<close>

definition copySlice :: "slice \<Rightarrow> slice \<Rightarrow> 'p heap \<Rightarrow> 'p heap" where
  "copySlice dst src h =
     (case ptr dst of
        None \<Rightarrow> h
      | Some a \<Rightarrow>
          (case ptr src of
             None \<Rightarrow> h
           | Some b \<Rightarrow>
               (let n = min (len dst) (len src)
                in h\<lparr>cells := (cells h)(a := take n (cells h b) @ drop n (cells h a))\<rparr>)))"

text \<open>\<^verbatim>\<open>sl[i] = v\<close>, which panics out of range.\<close>

datatype index_panic = IndexOutOfRange

definition storeIndex :: "slice \<Rightarrow> nat \<Rightarrow> 'p \<Rightarrow> 'p heap \<Rightarrow> index_panic + 'p heap" where
  "storeIndex sl i v h =
     (if i < len sl then
        (case ptr sl of
           None \<Rightarrow> Inl IndexOutOfRange
         | Some a \<Rightarrow> Inr (h\<lparr>cells := (cells h)(a := (cells h a)[i := v])\<rparr>))
      else Inl IndexOutOfRange)"

text \<open>\<^verbatim>\<open>append(sl, v)\<close>: in place when the capacity allows, into a new array otherwise.\<close>

definition appendSlice ::
  "'p \<Rightarrow> (nat \<Rightarrow> nat) \<Rightarrow> slice \<Rightarrow> 'p \<Rightarrow> 'p heap \<Rightarrow> slice \<times> 'p heap" where
  "appendSlice zero growth sl v h =
     (case ptr sl of
        Some a \<Rightarrow>
          (if len sl < cap sl then
             (sl\<lparr>len := len sl + 1\<rparr>, h\<lparr>cells := (cells h)(a := (cells h a)[len sl := v])\<rparr>)
           else
             (let c = max (growth (cap sl)) (len sl + 1)
              in (\<lparr>ptr = Some (brk h), len = len sl + 1, cap = c\<rparr>,
                  h\<lparr>cells := (cells h)(brk h := elems h sl @ [v] @ replicate (c - len sl - 1) zero),
                    brk := Suc (brk h)\<rparr>)))
      | None \<Rightarrow>
          (let c = max (growth 0) 1
           in (\<lparr>ptr = Some (brk h), len = 1, cap = c\<rparr>,
               h\<lparr>cells := (cells h)(brk h := [v] @ replicate (c - 1) zero),
                 brk := Suc (brk h)\<rparr>)))"

text \<open>\<^verbatim>\<open>GetIPRanges\<close> and \<^verbatim>\<open>snapshot\<close>: \<^verbatim>\<open>make\<close>, then \<^verbatim>\<open>copy\<close>, then return.\<close>

definition GetIPRangesH :: "'p \<Rightarrow> SourceH \<Rightarrow> 'p heap \<Rightarrow> slice \<times> 'p heap" where
  "GetIPRangesH zero s h =
     (case makeSlice zero (len (currentH s)) h of
        (out, h1) \<Rightarrow> (out, copySlice out (currentH s) h1))"

definition snapshotH :: "'p \<Rightarrow> SourceH \<Rightarrow> 'p heap \<Rightarrow> slice \<times> 'p heap" where
  "snapshotH zero s h =
     (case makeSlice zero (len (currentH s)) h of
        (out, h1) \<Rightarrow> (out, copySlice out (currentH s) h1))"

text \<open>
  The slice \<^verbatim>\<open>all\<close> of a pass: declared \<^verbatim>\<open>nil\<close>, then grown by one \<^verbatim>\<open>append\<close> for
  each prefix that the pass accepts, in order.
\<close>

fun appendAll ::
  "'p \<Rightarrow> (nat \<Rightarrow> nat) \<Rightarrow> slice \<Rightarrow> 'p list \<Rightarrow> 'p heap \<Rightarrow> slice \<times> 'p heap" where
  "appendAll zero growth sl [] h = (sl, h)"
| "appendAll zero growth sl (p # ps) h =
     (case appendSlice zero growth sl p h of
        (sl', h') \<Rightarrow> appendAll zero growth sl' ps h')"

text \<open>
  The install of a pass that accepted the prefixes \<open>ps\<close>: \<^verbatim>\<open>s.current = all\<close>, or
  \<^verbatim>\<open>s.current = nil\<close> on the empty branch that installs.
\<close>

definition installH ::
  "'p \<Rightarrow> (nat \<Rightarrow> nat) \<Rightarrow> SourceH \<Rightarrow> 'p list \<Rightarrow> 'p heap \<Rightarrow> SourceH \<times> 'p heap" where
  "installH zero growth s ps h =
     (if ps = [] then (s\<lparr>currentH := nilSlice\<rparr>, h)
      else
        (case appendAll zero growth nilSlice ps h of
           (all, h') \<Rightarrow> (s\<lparr>currentH := all\<rparr>, h')))"

text \<open>
  What may happen after a read has returned the slice \<open>out\<close>: the caller stores into
  \<open>out\<close>, the module installs, in any order and number.
\<close>

datatype 'p later = Store nat 'p | InstallOf "'p list"

fun runLater ::
  "'p \<Rightarrow> (nat \<Rightarrow> nat) \<Rightarrow> slice \<Rightarrow> 'p later list \<Rightarrow> SourceH \<times> 'p heap
     \<Rightarrow> index_panic + SourceH \<times> 'p heap" where
  "runLater zero growth out [] (s, h) = Inr (s, h)"
| "runLater zero growth out (Store i v # ops) (s, h) =
     (case storeIndex out i v h of
        Inl p \<Rightarrow> Inl p
      | Inr h' \<Rightarrow> runLater zero growth out ops (s, h'))"
| "runLater zero growth out (InstallOf ps # ops) (s, h) =
     runLater zero growth out ops (installH zero growth s ps h)"

text \<open>The same operations on lists: what the caller's list and the snapshot should be.\<close>

fun callerView :: "'p list \<Rightarrow> 'p later list \<Rightarrow> 'p list" where
  "callerView xs [] = xs"
| "callerView xs (Store i v # ops) = callerView (xs[i := v]) ops"
| "callerView xs (InstallOf ps # ops) = callerView xs ops"

fun moduleView :: "'p list \<Rightarrow> 'p later list \<Rightarrow> 'p list" where
  "moduleView xs [] = xs"
| "moduleView xs (Store i v # ops) = moduleView xs ops"
| "moduleView xs (InstallOf ps # ops) = moduleView ps ops"

text \<open>A slice of the heap: its array is allocated and as long as its capacity.\<close>

definition wfSlice :: "'p heap \<Rightarrow> slice \<Rightarrow> bool" where
  "wfSlice h sl =
     (case ptr sl of
        None \<Rightarrow> len sl = 0 \<and> cap sl = 0
      | Some a \<Rightarrow> a < brk h \<and> len sl \<le> cap sl \<and> length (cells h a) = cap sl)"

text \<open>A slice that a pass is building points to no array older than the pass.\<close>

definition ownedSince :: "addr \<Rightarrow> slice \<Rightarrow> bool" where
  "ownedSince b0 sl = (case ptr sl of None \<Rightarrow> True | Some a \<Rightarrow> b0 \<le> a)"

text \<open>What holds between a returned slice and the module from the read on.\<close>

definition apart :: "slice \<Rightarrow> SourceH \<times> 'p heap \<Rightarrow> bool" where
  "apart out st =
     (case st of (s, h) \<Rightarrow>
        wfSlice h out \<and> wfSlice h (currentH s) \<and> ptr out \<noteq> None \<and> ptr (currentH s) \<noteq> ptr out)"

text \<open>An example: a heap with nothing allocated, a doubling \<^verbatim>\<open>append\<close>.\<close>

definition emptyHeap :: "Prefix heap" where
  "emptyHeap = \<lparr>cells = (\<lambda>a. []), brk = 0\<rparr>"

definition doubling :: "nat \<Rightarrow> nat" where
  "doubling c = 2 * c"

definition firstInstall :: "SourceH \<times> Prefix heap" where
  "firstInstall = installH ZeroPrefix doubling \<lparr>currentH = nilSlice\<rparr> examplePrefixes emptyHeap"

definition firstRead :: "slice \<times> Prefix heap" where
  "firstRead = GetIPRangesH ZeroPrefix (fst firstInstall) (snd firstInstall)"

definition laterOps :: "Prefix later list" where
  "laterOps = [Store 0 prefix6, InstallOf [prefix6], Store 2 ZeroPrefix]"

section \<open>The background refresher\<close>

text \<open>
  The goroutine that \<^verbatim>\<open>Provision\<close> starts, with the ticker and the host around it, as
  a transition system.  The state holds the module, whether the channel of the ticker
  holds a tick (it buffers one), where the loop is, the state of the provider and the
  events so far.  The loop is at its \<^verbatim>\<open>select\<close> with something to choose from
  (\<open>Selecting\<close>), blocked in it because neither channel is ready (\<open>Blocked\<close>), inside
  \<^verbatim>\<open>refreshOnce\<close> (\<open>InPass\<close>), or has returned (\<open>Exited\<close>, which also stops the
  ticker).  Go's \<^verbatim>\<open>select\<close> picks any one of the ready cases; a goroutine blocked in
  \<^verbatim>\<open>select\<close> is woken by the first channel that becomes ready.  The error of a pass is
  discarded.
\<close>

datatype loop = Selecting | Blocked | InPass | Exited

record ('w, 'p) sched =
  g_src :: "'p Source"
  g_tickC :: bool
  g_loop :: loop
  g_world :: 'w
  g_events :: "'p event list"

inductive sstep ::
  "('c, 'w, 'p) deps \<Rightarrow> ('w, 'p) sched \<Rightarrow> ('w, 'p) sched \<Rightarrow> bool"
  for d :: "('c, 'w, 'p) deps" where
  tick_wakes:
    "g_loop st = Blocked \<Longrightarrow> sstep d st (st\<lparr>g_loop := InPass\<rparr>)"
| tick_buffered:
    "g_loop st = Selecting \<or> g_loop st = InPass \<Longrightarrow> sstep d st (st\<lparr>g_tickC := True\<rparr>)"
| stop:
    "stopCh (g_src st) = Some Open \<Longrightarrow> Cleanup (g_src st) = Inr (err, s') \<Longrightarrow>
     sstep d st (st\<lparr>g_src := s', g_loop := (if g_loop st = Blocked then Exited else g_loop st)\<rparr>)"
| select_tick:
    "g_loop st = Selecting \<Longrightarrow> g_tickC st \<Longrightarrow>
     sstep d st (st\<lparr>g_tickC := False, g_loop := InPass\<rparr>)"
| select_stop:
    "g_loop st = Selecting \<Longrightarrow> stopCh (g_src st) = Some Closed \<Longrightarrow>
     sstep d st (st\<lparr>g_loop := Exited\<rparr>)"
| block:
    "g_loop st = Selecting \<Longrightarrow> \<not> g_tickC st \<Longrightarrow> stopCh (g_src st) = Some Open \<Longrightarrow>
     sstep d st (st\<lparr>g_loop := Blocked\<rparr>)"
| pass:
    "g_loop st = InPass \<Longrightarrow> refreshOnce fuel d (g_src st) (g_world st) = (Some r, s', w', evs) \<Longrightarrow>
     sstep d st (st\<lparr>g_src := s', g_world := w', g_events := g_events st @ evs, g_loop := Selecting\<rparr>)"

text \<open>The snapshots installed so far.\<close>

definition installs :: "'p event list \<Rightarrow> 'p event list" where
  "installs evs = filter isInstall evs"

text \<open>
  An example: the refresher just started by \<^verbatim>\<open>Provision\<close> on the provider with two
  pages; a tick fires, the host stops the module, the loop picks the tick and runs a
  pass, and only then picks the stop.
\<close>

definition run0 :: "(nat, Prefix) sched" where
  "run0 = \<lparr>g_src = exampleSource\<lparr>current := examplePrefixes, stopCh := Some Open\<rparr>,
            g_tickC = False, g_loop = Selecting, g_world = 3,
            g_events = twoPagesEvents @ [Install examplePrefixes]\<rparr>"

definition run1 :: "(nat, Prefix) sched" where
  "run1 = run0\<lparr>g_tickC := True\<rparr>"

definition run2 :: "(nat, Prefix) sched" where
  "run2 = run1\<lparr>g_src := exampleSource\<lparr>current := examplePrefixes, stopCh := Some Closed\<rparr>\<rparr>"

definition run3 :: "(nat, Prefix) sched" where
  "run3 = run2\<lparr>g_tickC := False, g_loop := InPass\<rparr>"

definition run4 :: "(nat, Prefix) sched" where
  "run4 = run3\<lparr>g_world := 6,
               g_events := g_events run3 @ twoPagesEvents @ [Install examplePrefixes],
               g_loop := Selecting\<rparr>"

definition run5 :: "(nat, Prefix) sched" where
  "run5 = run4\<lparr>g_loop := Exited\<rparr>"

text \<open>The other example: the loop is blocked when the host stops the module.\<close>

definition idle0 :: "(nat, Prefix) sched" where
  "idle0 = run0\<lparr>g_loop := Blocked\<rparr>"

definition idle1 :: "(nat, Prefix) sched" where
  "idle1 = idle0\<lparr>g_src := exampleSource\<lparr>current := examplePrefixes, stopCh := Some Closed\<rparr>,
                 g_loop := Exited\<rparr>"

section \<open>Readers racing an install\<close>

text \<open>
  The read path and the install under the lock \<^verbatim>\<open>s.mu\<close>, as threads that take one
  step at a time in any order.  The lock is Go's \<^verbatim>\<open>sync.RWMutex\<close>: a flag for the
  writer and a count of readers; \<^verbatim>\<open>RLock\<close> waits while the writer holds it, \<^verbatim>\<open>Lock\<close>
  waits while anyone holds it.  A reader is one call of \<^verbatim>\<open>GetIPRanges\<close> (or
  \<^verbatim>\<open>snapshot\<close>): \<^verbatim>\<open>RLock\<close>; \<^verbatim>\<open>make\<close>, which reads the length of \<^verbatim>\<open>s.current\<close>;
  \<^verbatim>\<open>copy\<close>, which reads \<^verbatim>\<open>s.current\<close> again and copies as many elements as the
  shorter of the two slices has; and the return with the deferred \<^verbatim>\<open>RUnlock\<close>.  The
  writer is the refresher, which installs the snapshots of its passes one after the
  other (\<^verbatim>\<open>nil\<close>, the empty list, when a pass clears the cache): \<^verbatim>\<open>Lock\<close>, the
  assignment to \<^verbatim>\<open>s.current\<close>, \<^verbatim>\<open>Unlock\<close>.  \<open>c_history\<close> records the values that
  \<^verbatim>\<open>s.current\<close> has had.
\<close>

record rwmutex =
  writer :: bool
  readerCount :: nat

datatype 'p reader =
    RStart
  | RLocked
  | RMade "'p list"
  | RCopied "'p list"
  | RReturned "'p list"

datatype wstate = WIdle | WLocked | WAssigned

record 'p conc =
  c_current :: "'p list"
  c_mu :: rwmutex
  c_readers :: "'p reader list"
  c_writer :: wstate
  c_pending :: "'p list list"
  c_history :: "'p list list"

text \<open>The steps: four of reader \<open>i\<close>, three of the writer.\<close>

datatype op = DoRLock nat | DoMake nat | DoCopy nat | DoReturn nat | DoLock | DoAssign | DoUnlock

text \<open>When a thread can take its step: it is there in its code, and the lock lets it.\<close>

fun enabled :: "'p conc \<Rightarrow> op \<Rightarrow> bool" where
  "enabled st (DoRLock i) =
     (i < length (c_readers st) \<and> c_readers st ! i = RStart \<and> \<not> writer (c_mu st))"
| "enabled st (DoMake i) = (i < length (c_readers st) \<and> c_readers st ! i = RLocked)"
| "enabled st (DoCopy i) =
     (i < length (c_readers st) \<and> (case c_readers st ! i of RMade out \<Rightarrow> True | _ \<Rightarrow> False))"
| "enabled st (DoReturn i) =
     (i < length (c_readers st) \<and> (case c_readers st ! i of RCopied out \<Rightarrow> True | _ \<Rightarrow> False))"
| "enabled st DoLock =
     (c_writer st = WIdle \<and> c_pending st \<noteq> [] \<and> \<not> writer (c_mu st)
      \<and> readerCount (c_mu st) = 0)"
| "enabled st DoAssign = (c_writer st = WLocked \<and> c_pending st \<noteq> [])"
| "enabled st DoUnlock = (c_writer st = WAssigned)"

text \<open>What the step does.  \<open>zero\<close> is the zero value of \<^verbatim>\<open>netip.Prefix\<close>.\<close>

fun perform :: "'p \<Rightarrow> op \<Rightarrow> 'p conc \<Rightarrow> 'p conc" where
  "perform zero (DoRLock i) st =
     st\<lparr>c_mu := (c_mu st)\<lparr>readerCount := readerCount (c_mu st) + 1\<rparr>,
        c_readers := (c_readers st)[i := RLocked]\<rparr>"
| "perform zero (DoMake i) st =
     st\<lparr>c_readers := (c_readers st)[i := RMade (replicate (length (c_current st)) zero)]\<rparr>"
| "perform zero (DoCopy i) st =
     (case c_readers st ! i of
        RMade out \<Rightarrow>
          let n = min (length out) (length (c_current st))
          in st\<lparr>c_readers := (c_readers st)[i := RCopied (take n (c_current st) @ drop n out)]\<rparr>
      | _ \<Rightarrow> st)"
| "perform zero (DoReturn i) st =
     (case c_readers st ! i of
        RCopied out \<Rightarrow>
          st\<lparr>c_mu := (c_mu st)\<lparr>readerCount := readerCount (c_mu st) - 1\<rparr>,
             c_readers := (c_readers st)[i := RReturned out]\<rparr>
      | _ \<Rightarrow> st)"
| "perform zero DoLock st = st\<lparr>c_mu := (c_mu st)\<lparr>writer := True\<rparr>, c_writer := WLocked\<rparr>"
| "perform zero DoAssign st =
     (case c_pending st of
        all # rest \<Rightarrow>
          st\<lparr>c_current := all, c_history := c_history st @ [all], c_writer := WAssigned\<rparr>
      | [] \<Rightarrow> st)"
| "perform zero DoUnlock st =
     st\<lparr>c_mu := (c_mu st)\<lparr>writer := False\<rparr>, c_pending := tl (c_pending st),
        c_writer := WIdle\<rparr>"

text \<open>One step of the system: any thread that can take its step may take it.\<close>

inductive cstep :: "'p \<Rightarrow> 'p conc \<Rightarrow> 'p conc \<Rightarrow> bool" for zero :: 'p where
  step: "enabled st op \<Longrightarrow> cstep zero st (perform zero op st)"

text \<open>A schedule is run step by step; \<open>None\<close> when one of its steps cannot be taken.\<close>

fun schedule :: "'p \<Rightarrow> op list \<Rightarrow> 'p conc \<Rightarrow> 'p conc option" where
  "schedule zero [] st = Some st"
| "schedule zero (op # ops) st =
     (if enabled st op then schedule zero ops (perform zero op st) else None)"

text \<open>
  The start: the snapshot \<open>pre\<close> is installed, the lock is free, \<open>k\<close> readers have not
  begun, and the refresher has the snapshots \<open>todo\<close> to install.
\<close>

definition cinit :: "'p list \<Rightarrow> nat \<Rightarrow> 'p list list \<Rightarrow> 'p conc" where
  "cinit pre k todo =
     \<lparr>c_current = pre, c_mu = \<lparr>writer = False, readerCount = 0\<rparr>,
      c_readers = replicate k RStart, c_writer = WIdle, c_pending = todo, c_history = [pre]\<rparr>"

text \<open>A reader between its \<^verbatim>\<open>RLock\<close> and its \<^verbatim>\<open>RUnlock\<close>.\<close>

fun holdsRLock :: "'p reader \<Rightarrow> bool" where
  "holdsRLock RLocked = True"
| "holdsRLock (RMade out) = True"
| "holdsRLock (RCopied out) = True"
| "holdsRLock r = False"

text \<open>What a reader holds, in a state.\<close>

fun readerOK :: "'p conc \<Rightarrow> 'p reader \<Rightarrow> bool" where
  "readerOK st (RMade out) = (length out = length (c_current st))"
| "readerOK st (RCopied out) = (out = c_current st)"
| "readerOK st (RReturned out) = (out \<in> set (c_history st))"
| "readerOK st r = True"

text \<open>The invariant of the system started from \<open>pre\<close> and \<open>todo\<close>.\<close>

definition cinv :: "'p list \<Rightarrow> 'p list list \<Rightarrow> 'p conc \<Rightarrow> bool" where
  "cinv pre todo st \<longleftrightarrow>
     readerCount (c_mu st) = length (filter holdsRLock (c_readers st))
     \<and> writer (c_mu st) = (c_writer st \<noteq> WIdle)
     \<and> (c_writer st \<noteq> WIdle \<longrightarrow> readerCount (c_mu st) = 0)
     \<and> set (c_history st) \<subseteq> set (pre # todo)
     \<and> c_current st \<in> set (c_history st)
     \<and> set (c_pending st) \<subseteq> set todo
     \<and> list_all (readerOK st) (c_readers st)"

text \<open>
  Two races of two readers with one install, and the states they end in.  In \<open>race\<close> the
  first reader takes the read lock and sizes its copy, the second joins it, both finish,
  and then the refresher installs.  In \<open>raceLate\<close> the second reader starts after the
  install.  In \<open>raceMid\<close> a reader holds the read lock and the refresher has to wait.
\<close>

definition prefixesAB :: "Prefix list" where
  "prefixesAB = [PrefixFrom (Addr4 [120, 52, 22, 96]) 27, PrefixFrom (Addr4 [205, 251, 249, 0]) 24]"

definition prefixesBC :: "Prefix list" where
  "prefixesBC = [PrefixFrom (Addr4 [205, 251, 249, 0]) 24, PrefixFrom (Addr4 [130, 176, 0, 0]) 17]"

definition race :: "op list" where
  "race = [DoRLock 0, DoMake 0, DoRLock 1, DoCopy 0, DoMake 1, DoReturn 0, DoCopy 1,
           DoReturn 1, DoLock, DoAssign, DoUnlock]"

definition raceLate :: "op list" where
  "raceLate = [DoRLock 0, DoMake 0, DoCopy 0, DoReturn 0, DoLock, DoAssign, DoUnlock,
               DoRLock 1, DoMake 1, DoCopy 1, DoReturn 1]"

definition raceMid :: "op list" where
  "raceMid = [DoRLock 0, DoMake 0]"

definition raceEnd :: "Prefix conc" where
  "raceEnd =
     \<lparr>c_current = prefixesBC, c_mu = \<lparr>writer = False, readerCount = 0\<rparr>,
      c_readers = [RReturned prefixesAB, RReturned prefixesAB], c_writer = WIdle,
      c_pending = [], c_history = [prefixesAB, prefixesBC]\<rparr>"

definition raceLateEnd :: "Prefix conc" where
  "raceLateEnd =
     \<lparr>c_current = prefixesBC, c_mu = \<lparr>writer = False, readerCount = 0\<rparr>,
      c_readers = [RReturned prefixesAB, RReturned prefixesBC], c_writer = WIdle,
      c_pending = [], c_history = [prefixesAB, prefixesBC]\<rparr>"

section \<open>Facts about the examples\<close>

lemma parse_A: "netip_ParsePrefix ''120.52.22.96/27'' = Some (PrefixFrom (Addr4 [120, 52, 22, 96]) 27)"
  by code_simp

lemma parse_B: "netip_ParsePrefix ''205.251.249.0/24'' = Some (PrefixFrom (Addr4 [205, 251, 249, 0]) 24)"
  by code_simp

lemma parse_C: "netip_ParsePrefix ''130.176.0.0/17'' = Some (PrefixFrom (Addr4 [130, 176, 0, 0]) 17)"
  by code_simp

lemma parse_bad: "netip_ParsePrefix ''not-a-cidr'' = None"
  by code_simp

lemma parse_6a: "netip_ParsePrefix ''2600:9000:3000::/36'' = Some prefix6"
  unfolding prefix6_def by code_simp

lemma parse_6b: "netip_ParsePrefix ''2600:9000:3000:0::/36'' = Some prefix6"
  unfolding prefix6_def by code_simp

lemma string_A: "Prefix_String (PrefixFrom (Addr4 [120, 52, 22, 96]) 27) = ''120.52.22.96/27''"
  by code_simp

lemma string_B: "Prefix_String (PrefixFrom (Addr4 [205, 251, 249, 0]) 24) = ''205.251.249.0/24''"
  by code_simp

lemma string_C: "Prefix_String (PrefixFrom (Addr4 [130, 176, 0, 0]) 17) = ''130.176.0.0/17''"
  by code_simp

lemma string_6: "Prefix_String prefix6 = ''2600:9000:3000::/36''"
  unfolding prefix6_def by code_simp

lemmas parse_facts = parse_A parse_B parse_C parse_bad parse_6a parse_6b

lemma describe_v4 [simp]:
  "filter (nameMatches (describeInput ''com.amazonaws.global.cloudfront.origin-facing''))
     exampleLists = exampleLists"
  by (simp add: nameMatches_def describeInput_def exampleLists_def)

lemma describe_v6 [simp]:
  "filter (nameMatches (describeInput ''com.amazonaws.global.cloudfront.origin-facing-ipv6''))
     exampleLists
   = [\<lparr>pl_PrefixListName = Some ''com.amazonaws.global.cloudfront.origin-facing-ipv6'',
        pl_PrefixListId = Some ''pl-6''\<rparr>]"
  by (simp add: nameMatches_def describeInput_def exampleLists_def)

lemma scan_v4 [simp]:
  "scanPrefixLists ''com.amazonaws.global.cloudfront.origin-facing'' region exampleLists
   = (''pl-4'', None)"
  by (simp add: exampleLists_def)

lemmas pass_defs = refreshOnce_def resolveAndFetch_def installFetched_def resolveIDs_def
  resolvePrefixListID_def loadAWSConfig_def describeCall_def getEntriesCall_def
  pageTokenOrNil_def snapshot_def maxResultsPerPage_def defaultPLNameV4_def defaultPLNameV6_def
  Let_def

lemmas example_defs = tableDeps_def exampleSource_def entry_def describeV4_def describeV6_def
  describeInput_def [symmetric] getInput_def eval_nat_numeral

lemma emptyPage_fetch:
  "resolveAndFetch 1 (tableDeps exampleLists emptyPage)
     (exampleSource\<lparr>current := c, RequireNonEmpty := b\<rparr>) 0
   = (Some (Inr []), 2, emptyPassEvents)"
  by (simp add: pass_defs example_defs emptyPage_def emptyPassEvents_def)

lemma twoPages_fetch:
  "resolveAndFetch 2 (tableDeps exampleLists twoPages) exampleSource 0
   = (Some (Inr examplePrefixes), 3, twoPagesEvents)"
  by (simp add: pass_defs example_defs twoPages_def twoPagesEvents_def examplePrefixes_def
      parse_facts)

lemma twoPages_refresh:
  "refreshOnce 2 (tableDeps exampleLists twoPages) exampleSource 0
   = (Some (Inr ()), exampleSource\<lparr>current := examplePrefixes\<rparr>, 3,
      twoPagesEvents @ [Install examplePrefixes])"
  by (simp add: refreshOnce_def twoPages_fetch installFetched_def examplePrefixes_def)

lemma brokenPages_refresh:
  "refreshOnce 2 (tableDeps exampleLists brokenPages) (exampleSource\<lparr>current := examplePrefixes\<rparr>) 0
   = (Some (Inl (GetEntriesError ''pl-4'' ''RequestLimitExceeded'')),
      exampleSource\<lparr>current := examplePrefixes\<rparr>, 3, brokenPagesEvents)"
  by (simp add: pass_defs example_defs brokenPages_def brokenPagesEvents_def parse_facts)

lemma malformedPage_fetch:
  "resolveAndFetch 1 (tableDeps exampleLists malformedPage) exampleSource 0
   = (Some (Inr [PrefixFrom (Addr4 [120, 52, 22, 96]) 27, PrefixFrom (Addr4 [205, 251, 249, 0]) 24]),
      2, malformedPageEvents)"
  by (simp add: pass_defs example_defs malformedPage_def malformedPageEvents_def parse_facts)

lemma dualStack_refresh:
  "refreshOnce 1 (tableDeps exampleLists dualStack) (exampleSource\<lparr>IncludeIPv6 := True\<rparr>) 0
   = (Some (Inr ()), exampleSource\<lparr>IncludeIPv6 := True, current := dualStackPrefixes\<rparr>, 4,
      [describeV4, describeV6] @ dualStackGets @ [Install dualStackPrefixes])"
  by (simp add: pass_defs example_defs dualStack_def dualStackGets_def dualStackPrefixes_def
      parse_facts)

lemma dualStack_explicit_refresh:
  "refreshOnce 1 (tableDeps exampleLists dualStack)
     (exampleSource\<lparr>PrefixListID := ''pl-4'', IncludeIPv6 := True\<rparr>) 0
   = (Some (Inr ()),
      exampleSource\<lparr>PrefixListID := ''pl-4'', IncludeIPv6 := True, current := dualStackPrefixes\<rparr>,
      3, [describeV6] @ dualStackGets @ [Install dualStackPrefixes])"
  by (simp add: pass_defs example_defs dualStack_def dualStackGets_def dualStackPrefixes_def
      parse_facts)

lemma twoPages_explicit_refresh:
  "refreshOnce 2 (tableDeps exampleLists twoPages) (exampleSource\<lparr>PrefixListID := ''pl-4''\<rparr>) 0
   = (Some (Inr ()), exampleSource\<lparr>PrefixListID := ''pl-4'', current := examplePrefixes\<rparr>, 2,
      tl twoPagesEvents @ [Install examplePrefixes])"
  by (simp add: pass_defs example_defs twoPages_def twoPagesEvents_def examplePrefixes_def
      parse_facts)

lemma Provision_started:
  assumes "Provision fuel d getenv s w = (Some (Inr ()), s1, w', evs)"
  shows "stopCh s1 = Some Open"
  using assms
  by (auto simp: Provision_def Let_def split: prod.splits option.splits sum.splits if_splits)

lemma Provision_configured:
  assumes "Region s \<noteq> []" and "Refresh s \<noteq> 0" and "PrefixListName s \<noteq> []"
  shows "Provision fuel d getenv s w =
     (case refreshOnce fuel d s w of
        (None, s4, w', evs) \<Rightarrow> (None, s4, w', evs)
      | (Some (Inl err), s4, w', evs) \<Rightarrow> (Some (Inl err), s4, w', evs)
      | (Some (Inr u), s4, w', evs) \<Rightarrow>
          (if length (snapshot s4) = 0 \<and> RequireNonEmpty s4
           then (Some (Inl NoPrefixesOnInitialFetch), s4, w', evs)
           else (Some (Inr ()), s4\<lparr>stopCh := Some Open\<rparr>, w', evs)))"
  using assms by (simp add: Provision_def)

lemma exampleSource_configured:
  "Region exampleSource \<noteq> []" "Refresh exampleSource \<noteq> 0" "PrefixListName exampleSource \<noteq> []"
  by (simp_all add: exampleSource_def defaultRefresh_def defaultPLNameV4_def)

lemma twoPages_Provision:
  "Provision 2 (tableDeps exampleLists twoPages) (\<lambda>v. []) exampleSource 0
   = (Some (Inr ()), exampleSource\<lparr>current := examplePrefixes, stopCh := Some Open\<rparr>, 3,
      twoPagesEvents @ [Install examplePrefixes])"
  by (simp add: Provision_configured [OF exampleSource_configured] twoPages_refresh
      snapshot_def examplePrefixes_def)

section \<open>Lemmas about the loops and their events\<close>

lemma first_seen_snoc:
  "first_seen (xs @ [x]) = (if x \<in> set xs then first_seen xs else first_seen xs @ [x])"
  by (simp add: first_seen_def)

lemma first_seen_Nil: "first_seen [] = []"
  by (simp add: first_seen_def)

lemma set_first_seen: "set (first_seen xs) = set xs"
  by (simp add: first_seen_def)

lemma distinct_first_seen: "distinct (first_seen xs)"
  by (simp add: first_seen_def)

lemma filter_first_seen: "filter P (first_seen xs) = first_seen (filter P xs)"
  by (simp add: first_seen_def rev_filter remdups_filter)

lemma returnedCidrs_append: "returnedCidrs (xs @ ys) = returnedCidrs xs @ returnedCidrs ys"
  by (induction xs rule: returnedCidrs.induct) simp_all

lemma describeCalls_append: "describeCalls (xs @ ys) = describeCalls xs @ describeCalls ys"
  by (induction xs rule: describeCalls.induct) simp_all

lemma accOf_Nil: "accOf parse [] = ({}, [])"
  by (simp add: accOf_def first_seen_Nil)

lemma accOf_snoc_seen:
  "c \<in> fst (accOf parse cs) \<Longrightarrow> accOf parse (cs @ [c]) = accOf parse cs"
  by (auto simp: accOf_def first_seen_snoc set_first_seen)

lemma accOf_snoc_bad:
  "parse c = None \<Longrightarrow> accOf parse (cs @ [c]) = accOf parse cs"
  by (simp add: accOf_def)

lemma accOf_snoc_new:
  "c \<notin> fst (accOf parse cs) \<Longrightarrow> parse c = Some p \<Longrightarrow>
   accOf parse (cs @ [c]) = (insert c (fst (accOf parse cs)), snd (accOf parse cs) @ [p])"
  by (auto simp: accOf_def first_seen_snoc set_first_seen)

lemma addEntries_accOf:
  "addEntries parse es (accOf parse cs) = accOf parse (cs @ entryCidrs es)"
proof (induction es arbitrary: cs)
  case Nil
  then show ?case by (simp add: entryCidrs_def)
next
  case (Cons e es)
  show ?case
  proof (cases "Cidr e")
    case None
    then have "entryCidrs (e # es) = entryCidrs es"
      by (simp add: entryCidrs_def)
    moreover have "addEntries parse (e # es) (accOf parse cs) = addEntries parse es (accOf parse cs)"
      using None by (cases "accOf parse cs") simp
    ultimately show ?thesis using Cons.IH by simp
  next
    case (Some c)
    then have cid: "cs @ entryCidrs (e # es) = (cs @ [c]) @ entryCidrs es"
      by (simp add: entryCidrs_def)
    obtain seen all where acc: "accOf parse cs = (seen, all)"
      by (cases "accOf parse cs")
    have "addEntries parse (e # es) (accOf parse cs) = addEntries parse es (accOf parse (cs @ [c]))"
    proof (cases "c \<in> seen")
      case True
      then show ?thesis using Some acc accOf_snoc_seen [of c parse cs] by simp
    next
      case False
      show ?thesis
      proof (cases "parse c")
        case None
        then show ?thesis using Some acc False accOf_snoc_bad [of parse c cs] by simp
      next
        case (Some p)
        then show ?thesis
          using \<open>Cidr e = Some c\<close> acc False accOf_snoc_new [of c parse cs p] by simp
      qed
    qed
    then show ?thesis using Cons.IH [of "cs @ [c]"] cid by simp
  qed
qed

lemma fetchPages_accOf:
  "fetchPages fuel d ec2c ident tok (accOf (ParsePrefix d) cs) w = (Some (Inr acc'), w', evs)
   \<Longrightarrow> acc' = accOf (ParsePrefix d) (cs @ returnedCidrs evs)"
proof (induction fuel arbitrary: tok cs w w' evs acc')
  case 0
  then show ?case by simp
next
  case (Suc fuel)
  let ?inp = "\<lparr>PrefixListId = Some ident, MaxResults = Some maxResultsPerPage,
              NextToken = pageTokenOrNil tok\<rparr>"
  obtain r w1 where call: "GetManagedPrefixListEntries d ec2c ?inp w = (r, w1)"
    by (cases "GetManagedPrefixListEntries d ec2c ?inp w")
  show ?case
  proof (cases r)
    case (Inl err)
    then show ?thesis using Suc.prems call by (simp add: getEntriesCall_def)
  next
    case (Inr out)
    let ?acc1 = "accOf (ParsePrefix d) (cs @ entryCidrs (Entries out))"
    show ?thesis
    proof (cases "out_NextToken out = None \<or> out_NextToken out = Some []")
      case True
      then show ?thesis
        using Suc.prems call Inr
        by (auto simp: getEntriesCall_def addEntries_accOf Let_def)
    next
      case False
      then obtain t where t: "out_NextToken out = Some t" "t \<noteq> []" by auto
      obtain r2 w2 evs2 where rec:
        "fetchPages fuel d ec2c ident (Some t) ?acc1 w1 = (r2, w2, evs2)"
        by (cases "fetchPages fuel d ec2c ident (Some t) ?acc1 w1") auto
      from Suc.prems call Inr t rec
      have "r2 = Some (Inr acc')" "w2 = w'" "evs = CallGetEntries ?inp (Inr out) # evs2"
        by (auto simp: getEntriesCall_def addEntries_accOf Let_def)
      with Suc.IH [of "Some t" "cs @ entryCidrs (Entries out)" w1 acc' w' evs2] rec
      show ?thesis by simp
    qed
  qed
qed

lemma fetchAll_accOf:
  "fetchAll fuel d ec2c ids (accOf (ParsePrefix d) cs) w = (Some (Inr acc'), w', evs)
   \<Longrightarrow> acc' = accOf (ParsePrefix d) (cs @ returnedCidrs evs)"
proof (induction ids arbitrary: cs w w' evs acc')
  case Nil
  then show ?case by simp
next
  case (Cons ident ids)
  obtain r1 w1 evs1 where p:
    "fetchPages fuel d ec2c ident (Some []) (accOf (ParsePrefix d) cs) w = (r1, w1, evs1)"
    by (cases "fetchPages fuel d ec2c ident (Some []) (accOf (ParsePrefix d) cs) w") auto
  from Cons.prems p obtain acc1 where r1: "r1 = Some (Inr acc1)"
    by (auto split: option.splits sum.splits prod.splits)
  have acc1: "acc1 = accOf (ParsePrefix d) (cs @ returnedCidrs evs1)"
    using fetchPages_accOf [of fuel d ec2c ident "Some []" cs w acc1 w1 evs1] p r1 by simp
  obtain r2 w2 evs2 where q: "fetchAll fuel d ec2c ids acc1 w1 = (r2, w2, evs2)"
    by (cases "fetchAll fuel d ec2c ids acc1 w1") auto
  from Cons.prems p r1 q have "r2 = Some (Inr acc')" "w2 = w'" "evs = evs1 @ evs2"
    by auto
  with Cons.IH [of "cs @ returnedCidrs evs1" w1 acc' w' evs2] q acc1
  show ?case by (simp add: returnedCidrs_append)
qed

lemma resolveAndFetch_parts:
  assumes "resolveAndFetch fuel d s w = (Some (Inr all), w', evs)"
  obtains cfg w0 ids w1 evs1 seen evs2 where
    "loadAWSConfig d s w = (Inr cfg, w0)"
    "resolveIDs d s cfg w0 = (ids, w1, evs1)"
    "fetchAll fuel d cfg ids ({}, []) w1 = (Some (Inr (seen, all)), w', evs2)"
    "evs = evs1 @ evs2"
proof -
  obtain lc w0 where lc: "loadAWSConfig d s w = (lc, w0)"
    by (cases "loadAWSConfig d s w")
  with assms obtain cfg where cfg: "lc = Inr cfg"
    by (cases lc) (auto simp: resolveAndFetch_def)
  obtain ids w1 evs1 where ri: "resolveIDs d s cfg w0 = (ids, w1, evs1)"
    by (cases "resolveIDs d s cfg w0") auto
  obtain r2 w2 evs2 where fa: "fetchAll fuel d cfg ids ({}, []) w1 = (r2, w2, evs2)"
    by (cases "fetchAll fuel d cfg ids ({}, []) w1") auto
  from assms lc cfg ri fa obtain seen where
    "r2 = Some (Inr (seen, all))" "w2 = w'" "evs = evs1 @ evs2"
    by (auto simp: resolveAndFetch_def split: option.splits sum.splits prod.splits)
  with that lc cfg ri fa show thesis by simp
qed

lemma resolvePrefixListID_events:
  assumes "resolvePrefixListID d s ec2c explicitID name defaultName w = (r, w', evs)"
  shows "list_all isDescribe evs"
  using assms
  by (auto simp: resolvePrefixListID_def describeCall_def Let_def
      split: if_splits prod.splits sum.splits)

lemma resolveIDs_events:
  assumes "resolveIDs d s ec2c w = (ids, w', evs)"
  shows "list_all isDescribe evs"
proof -
  obtain i4 e4 w1 evs1 where r4:
    "resolvePrefixListID d s ec2c (PrefixListID s) (PrefixListName s) defaultPLNameV4 w
       = ((i4, e4), w1, evs1)"
    by (cases "resolvePrefixListID d s ec2c (PrefixListID s) (PrefixListName s) defaultPLNameV4 w")
       auto
  obtain i6 e6 w2 evs2 where r6:
    "resolvePrefixListID d s ec2c [] defaultPLNameV6 defaultPLNameV6 w1 = ((i6, e6), w2, evs2)"
    by (cases "resolvePrefixListID d s ec2c [] defaultPLNameV6 defaultPLNameV6 w1") auto
  have "evs = evs1 \<or> evs = evs1 @ evs2"
    using assms r4 r6 by (auto simp: resolveIDs_def Let_def split: if_splits)
  then show ?thesis
    using resolvePrefixListID_events [OF r4] resolvePrefixListID_events [OF r6] by auto
qed

lemma describe_no_cidrs: "list_all isDescribe evs \<Longrightarrow> returnedCidrs evs = []"
  by (induction evs rule: returnedCidrs.induct) simp_all

lemma isDescribe_cases: "isDescribe e \<Longrightarrow> \<not> failedGetEntries e \<and> \<not> isInstall e \<and> \<not> isGetEntries e"
  by (cases e) auto

lemma isGetEntries_cases: "isGetEntries e \<Longrightarrow> \<not> isDescribe e \<and> \<not> isInstall e"
  by (cases e) auto

lemma describe_not_failed: "list_all isDescribe evs \<Longrightarrow> \<not> list_ex failedGetEntries evs"
  by (auto simp: list_ex_iff list_all_iff dest: isDescribe_cases)

lemma gets_no_describe: "list_all isGetEntries evs \<Longrightarrow> describeCalls evs = []"
  by (induction evs rule: describeCalls.induct) simp_all

lemma fetchPages_events:
  assumes "fetchPages fuel d ec2c ident tok acc w = (r, w', evs)"
  shows "list_all isGetEntries evs
       \<and> (\<forall>e. r = Some (Inl e) \<longrightarrow>
            (\<exists>pre inp err. evs = pre @ [CallGetEntries inp (Inl err)]
               \<and> PrefixListId inp = Some ident \<and> e = GetEntriesError ident err
               \<and> \<not> list_ex failedGetEntries pre))
       \<and> ((\<forall>e. r \<noteq> Some (Inl e)) \<longrightarrow> \<not> list_ex failedGetEntries evs)"
  using assms
proof (induction fuel arbitrary: tok acc w r w' evs)
  case 0
  then show ?case by simp
next
  case (Suc fuel)
  let ?inp = "\<lparr>PrefixListId = Some ident, MaxResults = Some maxResultsPerPage,
              NextToken = pageTokenOrNil tok\<rparr>"
  obtain rr w1 where call: "GetManagedPrefixListEntries d ec2c ?inp w = (rr, w1)"
    by (cases "GetManagedPrefixListEntries d ec2c ?inp w")
  show ?case
  proof (cases rr)
    case (Inl err)
    with Suc.prems call have "r = Some (Inl (GetEntriesError ident err))"
      "evs = [] @ [CallGetEntries ?inp (Inl err)]"
      by (auto simp: getEntriesCall_def)
    then show ?thesis by force
  next
    case (Inr out)
    show ?thesis
    proof (cases "out_NextToken out = None \<or> out_NextToken out = Some []")
      case True
      with Suc.prems call Inr show ?thesis
        by (auto simp: getEntriesCall_def Let_def)
    next
      case False
      then obtain t where t: "out_NextToken out = Some t" "t \<noteq> []" by auto
      let ?acc1 = "addEntries (ParsePrefix d) (Entries out) acc"
      obtain r2 w2 evs2 where rec:
        "fetchPages fuel d ec2c ident (Some t) ?acc1 w1 = (r2, w2, evs2)"
        by (cases "fetchPages fuel d ec2c ident (Some t) ?acc1 w1") auto
      from Suc.prems call Inr t rec
      have eq: "r = r2" "evs = CallGetEntries ?inp (Inr out) # evs2"
        by (auto simp: getEntriesCall_def Let_def)
      note ih = Suc.IH [OF rec]
      have "\<forall>e. r = Some (Inl e) \<longrightarrow>
            (\<exists>pre inp err. evs = pre @ [CallGetEntries inp (Inl err)]
               \<and> PrefixListId inp = Some ident \<and> e = GetEntriesError ident err
               \<and> \<not> list_ex failedGetEntries pre)"
      proof (intro allI impI)
        fix e assume "r = Some (Inl e)"
        with ih eq obtain pre inp err where
          "evs2 = pre @ [CallGetEntries inp (Inl err)]" "PrefixListId inp = Some ident"
          "e = GetEntriesError ident err" "\<not> list_ex failedGetEntries pre"
          by blast
        then have "evs = (CallGetEntries ?inp (Inr out) # pre) @ [CallGetEntries inp (Inl err)]
               \<and> PrefixListId inp = Some ident \<and> e = GetEntriesError ident err
               \<and> \<not> list_ex failedGetEntries (CallGetEntries ?inp (Inr out) # pre)"
          using eq by simp
        then show "\<exists>pre inp err. evs = pre @ [CallGetEntries inp (Inl err)]
               \<and> PrefixListId inp = Some ident \<and> e = GetEntriesError ident err
               \<and> \<not> list_ex failedGetEntries pre"
          by blast
      qed
      then show ?thesis using ih eq by simp
    qed
  qed
qed

lemma abortedBy_prepend:
  assumes "\<not> list_ex failedGetEntries xs" and "abortedBy ys e"
  shows "abortedBy (xs @ ys) e"
proof -
  from assms(2) obtain pre inp ident err where
    "ys = pre @ [CallGetEntries inp (Inl err)]" "PrefixListId inp = Some ident"
    "e = GetEntriesError ident err" "\<not> list_ex failedGetEntries pre"
    unfolding abortedBy_def by blast
  with assms(1) have "xs @ ys = (xs @ pre) @ [CallGetEntries inp (Inl err)]
      \<and> PrefixListId inp = Some ident \<and> e = GetEntriesError ident err
      \<and> \<not> list_ex failedGetEntries (xs @ pre)"
    by (auto simp: list_ex_iff)
  then show ?thesis unfolding abortedBy_def by blast
qed

lemma abortedBy_last:
  assumes "abortedBy evs e" and "CallGetEntries inp (Inl err) \<in> set evs"
  shows "\<exists>ident pre. PrefixListId inp = Some ident \<and> e = GetEntriesError ident err
           \<and> evs = pre @ [CallGetEntries inp (Inl err)] \<and> \<not> list_ex failedGetEntries pre"
proof -
  from assms(1) obtain pre inp' ident err' where sh:
    "evs = pre @ [CallGetEntries inp' (Inl err')]" "PrefixListId inp' = Some ident"
    "e = GetEntriesError ident err'" "\<not> list_ex failedGetEntries pre"
    unfolding abortedBy_def by blast
  have "CallGetEntries inp (Inl err) \<notin> set pre"
    using sh(4) by (auto simp: list_ex_iff)
  with assms(2) sh(1) have "inp' = inp" "err' = err" by auto
  with sh show ?thesis by blast
qed

lemma fetchPages_aborted:
  assumes "fetchPages fuel d ec2c ident tok acc w = (r, w', evs)"
  shows "list_all isGetEntries evs
       \<and> (\<forall>e. r = Some (Inl e) \<longrightarrow> abortedBy evs e)
       \<and> ((\<forall>e. r \<noteq> Some (Inl e)) \<longrightarrow> \<not> list_ex failedGetEntries evs)"
  using fetchPages_events [OF assms] unfolding abortedBy_def by blast

lemma fetchAll_aborted:
  assumes "fetchAll fuel d ec2c ids acc w = (r, w', evs)"
  shows "list_all isGetEntries evs
       \<and> (\<forall>e. r = Some (Inl e) \<longrightarrow> abortedBy evs e)
       \<and> ((\<forall>e. r \<noteq> Some (Inl e)) \<longrightarrow> \<not> list_ex failedGetEntries evs)"
  using assms
proof (induction ids arbitrary: acc w r w' evs)
  case Nil
  then show ?case by auto
next
  case (Cons ident ids)
  obtain r1 w1 evs1 where p: "fetchPages fuel d ec2c ident (Some []) acc w = (r1, w1, evs1)"
    by (cases "fetchPages fuel d ec2c ident (Some []) acc w") auto
  note p1 = fetchPages_aborted [OF p]
  show ?case
  proof (cases "\<exists>acc1. r1 = Some (Inr acc1)")
    case False
    with Cons.prems p have "r = r1" "evs = evs1"
      by (auto split: option.splits sum.splits)
    with p1 show ?thesis by simp
  next
    case True
    then obtain acc1 where r1: "r1 = Some (Inr acc1)" by blast
    obtain r2 w2 evs2 where q: "fetchAll fuel d ec2c ids acc1 w1 = (r2, w2, evs2)"
      by (cases "fetchAll fuel d ec2c ids acc1 w1") auto
    from Cons.prems p r1 q have eq: "r = r2" "evs = evs1 @ evs2" by auto
    note ih = Cons.IH [OF q]
    from p1 r1 have ok1: "\<not> list_ex failedGetEntries evs1" by simp
    show ?thesis
      using ih p1 ok1 eq abortedBy_prepend [OF ok1] by (auto simp: list_ex_iff)
  qed
qed

lemma installFetched_events:
  assumes "installFetched s all = (r, s', evs)"
  shows "list_all isInstall evs"
  using assms by (auto simp: installFetched_def Let_def split: if_splits)

lemma isInstall_cases: "isInstall e \<Longrightarrow> \<not> failedGetEntries e \<and> \<not> isDescribe e \<and> \<not> isGetEntries e"
  by (cases e) auto

lemma resolveAndFetch_aborted:
  assumes "resolveAndFetch fuel d s w = (r, w', evs)"
  shows "\<not> list_ex isInstall evs
       \<and> (list_ex failedGetEntries evs \<longrightarrow> (\<exists>e. r = Some (Inl e) \<and> abortedBy evs e))"
proof -
  obtain lc w0 where lc: "loadAWSConfig d s w = (lc, w0)"
    by (cases "loadAWSConfig d s w")
  show ?thesis
  proof (cases lc)
    case (Inl err)
    with assms lc show ?thesis by (auto simp: resolveAndFetch_def)
  next
    case (Inr cfg)
    obtain ids w1 evs1 where ri: "resolveIDs d s cfg w0 = (ids, w1, evs1)"
      by (cases "resolveIDs d s cfg w0") auto
    obtain r2 w2 evs2 where fa: "fetchAll fuel d cfg ids ({}, []) w1 = (r2, w2, evs2)"
      by (cases "fetchAll fuel d cfg ids ({}, []) w1") auto
    from assms lc Inr ri fa have evs: "evs = evs1 @ evs2"
      by (auto simp: resolveAndFetch_def split: option.splits sum.splits prod.splits)
    from assms lc Inr ri fa have r: "\<forall>e. (r = Some (Inl e)) = (r2 = Some (Inl e))"
      by (auto simp: resolveAndFetch_def split: option.splits sum.splits prod.splits)
    note d1 = resolveIDs_events [OF ri]
    note f2 = fetchAll_aborted [OF fa]
    have ok1: "\<not> list_ex failedGetEntries evs1" using d1 by (rule describe_not_failed)
    have noinst: "\<not> list_ex isInstall evs"
      using d1 f2 evs by (auto simp: list_ex_iff list_all_iff dest: isDescribe_cases isGetEntries_cases)
    have "list_ex failedGetEntries evs \<longrightarrow> (\<exists>e. r = Some (Inl e) \<and> abortedBy evs e)"
    proof
      assume "list_ex failedGetEntries evs"
      with evs ok1 have "list_ex failedGetEntries evs2" by (auto simp: list_ex_iff)
      with f2 obtain e where "r2 = Some (Inl e)" "abortedBy evs2 e" by blast
      with r evs abortedBy_prepend [OF ok1] show "\<exists>e. r = Some (Inl e) \<and> abortedBy evs e"
        by blast
    qed
    with noinst show ?thesis by simp
  qed
qed

lemma scanPrefixLists_find:
  "scanPrefixLists n region pls =
     (case find (\<lambda>pl. pl_PrefixListName pl = Some n \<and> pl_PrefixListId pl \<noteq> None) pls of
        None \<Rightarrow> ([], Some (NotFoundError n region))
      | Some pl \<Rightarrow> (the (pl_PrefixListId pl), None))"
  by (induction pls) (auto split: option.splits)

lemma resolvePrefixListID_describeCalls:
  assumes "resolvePrefixListID d s ec2c explicitID name defaultName w = (r, w', evs)"
  shows "describeCalls evs =
     (if explicitID \<noteq> [] then []
      else [\<lparr>Filters = [\<lparr>Name = Some ''prefix-list-name'',
                         Values = [if name = [] then defaultName else name]\<rparr>],
             di_MaxResults = Some 100\<rparr>])"
  using assms
  by (auto simp: resolvePrefixListID_def describeCall_def Let_def
      split: if_splits prod.splits sum.splits)

lemma resolveIDs_describeCalls:
  assumes "resolveIDs d s ec2c w = (ids, w', evs)" and "PrefixListID s \<noteq> []"
  shows "describeCalls evs =
     (if IncludeIPv6 s
      then [\<lparr>Filters = [\<lparr>Name = Some ''prefix-list-name'', Values = [defaultPLNameV6]\<rparr>],
             di_MaxResults = Some 100\<rparr>]
      else [])"
proof -
  obtain i4 e4 w1 evs1 where r4:
    "resolvePrefixListID d s ec2c (PrefixListID s) (PrefixListName s) defaultPLNameV4 w
       = ((i4, e4), w1, evs1)"
    by (cases "resolvePrefixListID d s ec2c (PrefixListID s) (PrefixListName s) defaultPLNameV4 w")
       auto
  obtain i6 e6 w2 evs2 where r6:
    "resolvePrefixListID d s ec2c [] defaultPLNameV6 defaultPLNameV6 w1 = ((i6, e6), w2, evs2)"
    by (cases "resolvePrefixListID d s ec2c [] defaultPLNameV6 defaultPLNameV6 w1") auto
  have "evs = (if IncludeIPv6 s then evs1 @ evs2 else evs1)"
    using assms(1) r4 r6 by (auto simp: resolveIDs_def Let_def split: if_splits)
  moreover have "describeCalls evs1 = []"
    using resolvePrefixListID_describeCalls [OF r4] assms(2) by simp
  moreover have "describeCalls evs2 =
      [\<lparr>Filters = [\<lparr>Name = Some ''prefix-list-name'', Values = [defaultPLNameV6]\<rparr>],
        di_MaxResults = Some 100\<rparr>]"
    using resolvePrefixListID_describeCalls [OF r6] by (simp add: defaultPLNameV6_def)
  ultimately show ?thesis by (simp add: describeCalls_append)
qed

lemma installs_no_describe: "list_all isInstall evs \<Longrightarrow> describeCalls evs = []"
  by (induction evs rule: describeCalls.induct) simp_all

lemma refreshOnce_describeCalls:
  assumes "refreshOnce fuel d s w = (r, s', w', evs)"
      and "loadAWSConfig d s w = (Inr cfg, w0)"
  shows "describeCalls evs = describeCalls (snd (snd (resolveIDs d s cfg w0)))"
proof -
  obtain ids w1 evs1 where ri: "resolveIDs d s cfg w0 = (ids, w1, evs1)"
    by (cases "resolveIDs d s cfg w0") auto
  obtain r2 w2 evs2 where fa: "fetchAll fuel d cfg ids ({}, []) w1 = (r2, w2, evs2)"
    by (cases "fetchAll fuel d cfg ids ({}, []) w1") auto
  have d2: "describeCalls evs2 = []"
    using fetchAll_aborted [OF fa] gets_no_describe by blast
  obtain r1 w3 evsF where rf: "resolveAndFetch fuel d s w = (r1, w3, evsF)"
    by (cases "resolveAndFetch fuel d s w") auto
  with assms(2) ri fa have evsF: "evsF = evs1 @ evs2"
    by (auto simp: resolveAndFetch_def split: option.splits sum.splits prod.splits)
  have "\<exists>evsI. evs = evsF @ evsI \<and> list_all isInstall evsI"
  proof (cases "\<exists>all. r1 = Some (Inr all)")
    case False
    with assms(1) rf have "evs = evsF @ []"
      by (auto simp: refreshOnce_def split: option.splits sum.splits)
    then show ?thesis by force
  next
    case True
    then obtain all where all: "r1 = Some (Inr all)" by blast
    obtain r3 s3 evs3 where inst: "installFetched s all = (r3, s3, evs3)"
      by (cases "installFetched s all") auto
    from assms(1) rf all inst have "evs = evsF @ evs3" by (auto simp: refreshOnce_def)
    with installFetched_events [OF inst] show ?thesis by blast
  qed
  then obtain evsI where "evs = evsF @ evsI" "list_all isInstall evsI" by blast
  with evsF d2 ri show ?thesis
    by (simp add: describeCalls_append installs_no_describe)
qed

lemma refreshOnce_config_failed:
  assumes "refreshOnce fuel d s w = (r, s', w', evs)"
      and "loadAWSConfig d s w = (Inl err, w0)"
  shows "evs = []"
  using assms by (simp add: refreshOnce_def resolveAndFetch_def)

section \<open>The install policy for an empty result\<close>

text \<open>
  Claim C1.  Let a pass complete its fetch with an empty slice.  If the prior snapshot is
  not empty, \<^verbatim>\<open>refreshOnce\<close> returns \<^verbatim>\<open>nil\<close> and leaves the whole state, hence the
  content and the count of the snapshot, as it was, and assigns nothing.  If the prior
  snapshot is empty and \<^verbatim>\<open>RequireNonEmpty\<close> is set, it returns the error "resolved zero
  prefixes" and assigns nothing.  If the prior snapshot is empty and \<^verbatim>\<open>RequireNonEmpty\<close>
  is not set, it assigns the empty snapshot (the event \<open>Install []\<close>) and returns
  \<^verbatim>\<open>nil\<close>.
\<close>

theorem refresh_empty_result_policy:
  assumes "resolveAndFetch fuel d s w = (Some (Inr []), w', evs)"
  shows "(current s \<noteq> [] \<longrightarrow> refreshOnce fuel d s w = (Some (Inr ()), s, w', evs))
       \<and> (current s = [] \<and> RequireNonEmpty s \<longrightarrow>
            refreshOnce fuel d s w = (Some (Inl ResolvedZeroPrefixes), s, w', evs))
       \<and> (current s = [] \<and> \<not> RequireNonEmpty s \<longrightarrow>
            refreshOnce fuel d s w = (Some (Inr ()), s\<lparr>current := []\<rparr>, w', evs @ [Install []]))"
  using assms by (simp add: refreshOnce_def installFetched_def snapshot_def)

text \<open>The three branches on the provider whose list has one empty page.\<close>

theorem refresh_empty_result_policy_witness:
  "resolveAndFetch 1 (tableDeps exampleLists emptyPage)
     (exampleSource\<lparr>current := [PrefixFrom (Addr4 [10, 0, 0, 0]) 8], RequireNonEmpty := True\<rparr>) 0
     = (Some (Inr []), 2, emptyPassEvents)
   \<and> refreshOnce 1 (tableDeps exampleLists emptyPage)
     (exampleSource\<lparr>current := [PrefixFrom (Addr4 [10, 0, 0, 0]) 8], RequireNonEmpty := True\<rparr>) 0
     = (Some (Inr ()),
        exampleSource\<lparr>current := [PrefixFrom (Addr4 [10, 0, 0, 0]) 8], RequireNonEmpty := True\<rparr>,
        2, emptyPassEvents)
   \<and> refreshOnce 1 (tableDeps exampleLists emptyPage)
     (exampleSource\<lparr>current := [], RequireNonEmpty := True\<rparr>) 0
     = (Some (Inl ResolvedZeroPrefixes), exampleSource\<lparr>current := [], RequireNonEmpty := True\<rparr>,
        2, emptyPassEvents)
   \<and> refreshOnce 1 (tableDeps exampleLists emptyPage)
     (exampleSource\<lparr>current := [], RequireNonEmpty := False\<rparr>) 0
     = (Some (Inr ()), exampleSource\<lparr>current := [], RequireNonEmpty := False\<rparr>,
        2, emptyPassEvents @ [Install []])"
  using refresh_empty_result_policy [OF emptyPage_fetch [where c = "[PrefixFrom (Addr4 [10, 0, 0, 0]) 8]" and b = True]]
        refresh_empty_result_policy [OF emptyPage_fetch [where c = "[]" and b = True]]
        refresh_empty_result_policy [OF emptyPage_fetch [where c = "[]" and b = False]]
        emptyPage_fetch [where c = "[PrefixFrom (Addr4 [10, 0, 0, 0]) 8]" and b = True]
  by simp

section \<open>Atomic visibility\<close>

text \<open>
  The lock orders the steps of the threads that it lets through, so the interleavings of
  whole steps are all there is to consider.  The invariant says what the lock gives:
  while the writer is between \<^verbatim>\<open>Lock\<close> and \<^verbatim>\<open>Unlock\<close> no reader is between \<^verbatim>\<open>RLock\<close>
  and \<^verbatim>\<open>RUnlock\<close>, so a reader that has sized its copy finds \<^verbatim>\<open>s.current\<close> unchanged
  when it copies.
\<close>

lemma count_update:
  "i < length rs \<Longrightarrow>
   length (filter P (rs[i := x])) + (if P (rs ! i) then 1 else 0)
   = length (filter P rs) + (if P x then 1 else 0)"
proof (induction rs arbitrary: i)
  case Nil
  then show ?case by simp
next
  case (Cons r rs)
  then show ?case by (cases i) auto
qed

lemma none_hold:
  "length (filter holdsRLock rs) = 0 \<Longrightarrow> r \<in> set rs \<Longrightarrow> \<not> holdsRLock r"
  by (auto simp: filter_empty_conv)

lemma list_all_update:
  "list_all P rs \<Longrightarrow> P x \<Longrightarrow> list_all P (rs[i := x])"
  by (auto simp: list_all_iff dest: set_update_subset_insert [THEN subsetD])

lemma readerOK_cong:
  "c_current st' = c_current st \<Longrightarrow> c_history st' = c_history st \<Longrightarrow>
   readerOK st' r = readerOK st r"
  by (cases r) auto

lemma readerOK_nth:
  assumes "cinv pre todo st" and "i < length (c_readers st)"
  shows "readerOK st (c_readers st ! i)"
proof -
  have "c_readers st ! i \<in> set (c_readers st)" using assms(2) by (rule nth_mem)
  moreover have "\<forall>r\<in>set (c_readers st). readerOK st r"
    using assms(1) by (simp add: cinv_def list_all_iff)
  ultimately show ?thesis by blast
qed

lemma cinv_init: "cinv pre todo (cinit pre k todo)"
  by (auto simp: cinv_def cinit_def list_all_iff)

lemma cinv_step:
  assumes "cstep zero st st'" and "cinv pre todo st"
  shows "cinv pre todo st'"
proof -
  from assms(1) obtain op where en: "enabled st op" and st': "st' = perform zero op st"
    by (auto elim: cstep.cases)
  show ?thesis
  proof (cases op)
    case (DoRLock i)
    have rlock: "st' = st\<lparr>c_mu := (c_mu st)\<lparr>readerCount := readerCount (c_mu st) + 1\<rparr>,
                         c_readers := (c_readers st)[i := RLocked]\<rparr>"
      "i < length (c_readers st)" "c_readers st ! i = RStart" "\<not> writer (c_mu st)"
      using en st' DoRLock by simp_all
    have cnt: "length (filter holdsRLock ((c_readers st)[i := RLocked]))
               = length (filter holdsRLock (c_readers st)) + 1"
      using count_update [of i "c_readers st" holdsRLock RLocked] rlock by simp
    have ok: "list_all (readerOK st') (c_readers st')"
    proof -
      have "list_all (readerOK st) ((c_readers st)[i := RLocked])"
        using assms(2) by (intro list_all_update) (auto simp: cinv_def)
      moreover have "\<And>r. readerOK st' r = readerOK st r"
        using rlock by (intro readerOK_cong) simp_all
      ultimately show ?thesis using rlock by (simp add: list_all_iff)
    qed
    from assms(2) rlock cnt ok show ?thesis by (auto simp: cinv_def)
  next
    case (DoMake i)
    have rmake: "st' = st\<lparr>c_readers :=
                           (c_readers st)[i := RMade (replicate (length (c_current st)) zero)]\<rparr>"
      "i < length (c_readers st)" "c_readers st ! i = RLocked"
      using en st' DoMake by simp_all
    have cnt: "length (filter holdsRLock (c_readers st'))
               = length (filter holdsRLock (c_readers st))"
      using count_update [of i "c_readers st" holdsRLock
              "RMade (replicate (length (c_current st)) zero)"] rmake by simp
    have ok: "list_all (readerOK st') (c_readers st')"
    proof -
      have "list_all (readerOK st)
              ((c_readers st)[i := RMade (replicate (length (c_current st)) zero)])"
        using assms(2) by (intro list_all_update) (auto simp: cinv_def)
      moreover have "\<And>r. readerOK st' r = readerOK st r"
        using rmake by (intro readerOK_cong) simp_all
      ultimately show ?thesis using rmake by (simp add: list_all_iff)
    qed
    from assms(2) rmake cnt ok show ?thesis by (auto simp: cinv_def)
  next
    case (DoCopy i)
    from en DoCopy obtain out where made: "c_readers st ! i = RMade out"
      by (cases "c_readers st ! i") auto
    define n where "n = min (length out) (length (c_current st))"
    have rcopy: "st' = st\<lparr>c_readers :=
                           (c_readers st)[i := RCopied (take n (c_current st) @ drop n out)]\<rparr>"
      "i < length (c_readers st)" "c_readers st ! i = RMade out"
      using en st' DoCopy made by (simp_all add: n_def Let_def)
    have "readerOK st (RMade out)"
      using readerOK_nth [OF assms(2) rcopy(2)] rcopy(3) by simp
    then have whole: "take n (c_current st) @ drop n out = c_current st"
      by (simp add: n_def)
    have cnt: "length (filter holdsRLock (c_readers st'))
               = length (filter holdsRLock (c_readers st))"
      using count_update [of i "c_readers st" holdsRLock
              "RCopied (take n (c_current st) @ drop n out)"] rcopy by simp
    have ok: "list_all (readerOK st') (c_readers st')"
    proof -
      have "list_all (readerOK st)
              ((c_readers st)[i := RCopied (take n (c_current st) @ drop n out)])"
        using assms(2) whole by (intro list_all_update) (auto simp: cinv_def)
      moreover have "\<And>r. readerOK st' r = readerOK st r"
        using rcopy by (intro readerOK_cong) simp_all
      ultimately show ?thesis using rcopy by (simp add: list_all_iff)
    qed
    from assms(2) rcopy cnt ok show ?thesis by (auto simp: cinv_def)
  next
    case (DoReturn i)
    from en DoReturn obtain out where copied: "c_readers st ! i = RCopied out"
      by (cases "c_readers st ! i") auto
    have rreturn: "st' = st\<lparr>c_mu := (c_mu st)\<lparr>readerCount := readerCount (c_mu st) - 1\<rparr>,
                           c_readers := (c_readers st)[i := RReturned out]\<rparr>"
      "i < length (c_readers st)" "c_readers st ! i = RCopied out"
      using en st' DoReturn copied by simp_all
    have here: "readerOK st (RCopied out)"
      using readerOK_nth [OF assms(2) rreturn(2)] rreturn(3) by simp
    have cnt: "length (filter holdsRLock (c_readers st')) + 1
               = length (filter holdsRLock (c_readers st))"
      using count_update [of i "c_readers st" holdsRLock "RReturned out"] rreturn by simp
    have ok: "list_all (readerOK st') (c_readers st')"
    proof -
      have "list_all (readerOK st) ((c_readers st)[i := RReturned out])"
        using assms(2) here by (intro list_all_update) (auto simp: cinv_def)
      moreover have "\<And>r. readerOK st' r = readerOK st r"
        using rreturn by (intro readerOK_cong) simp_all
      ultimately show ?thesis using rreturn by (simp add: list_all_iff)
    qed
    from assms(2) rreturn cnt ok show ?thesis by (auto simp: cinv_def)
  next
    case DoLock
    have wlock: "st' = st\<lparr>c_mu := (c_mu st)\<lparr>writer := True\<rparr>, c_writer := WLocked\<rparr>"
      "c_writer st = WIdle" "c_pending st \<noteq> []" "\<not> writer (c_mu st)"
      "readerCount (c_mu st) = 0"
      using en st' DoLock by simp_all
    have "\<And>r. readerOK st' r = readerOK st r"
      using wlock by (intro readerOK_cong) simp_all
    with assms(2) wlock show ?thesis by (auto simp: cinv_def list_all_iff)
  next
    case DoAssign
    from en DoAssign obtain all rest where pend: "c_pending st = all # rest"
      by (cases "c_pending st") auto
    have wassign: "st' = st\<lparr>c_current := all, c_history := c_history st @ [all],
                           c_writer := WAssigned\<rparr>"
      "c_writer st = WLocked" "c_pending st = all # rest"
      using en st' DoAssign pend by simp_all
    have free: "length (filter holdsRLock (c_readers st)) = 0"
      using assms(2) wassign by (auto simp: cinv_def)
    have ok: "list_all (readerOK st') (c_readers st')"
      unfolding list_all_iff
    proof
      fix r assume r: "r \<in> set (c_readers st')"
      then have "r \<in> set (c_readers st)" using wassign by simp
      then have "\<not> holdsRLock r" and "readerOK st r"
        using none_hold [OF free] assms(2) by (auto simp: cinv_def list_all_iff)
      then show "readerOK st' r" using wassign by (cases r) auto
    qed
    from assms(2) wassign ok show ?thesis by (auto simp: cinv_def)
  next
    case DoUnlock
    have wunlock: "st' = st\<lparr>c_mu := (c_mu st)\<lparr>writer := False\<rparr>,
                           c_pending := tl (c_pending st), c_writer := WIdle\<rparr>"
      "c_writer st = WAssigned"
      using en st' DoUnlock by simp_all
    have "\<And>r. readerOK st' r = readerOK st r"
      using wunlock by (intro readerOK_cong) simp_all
    moreover have "set (tl (c_pending st)) \<subseteq> set (c_pending st)"
      by (cases "c_pending st") auto
    ultimately show ?thesis using assms(2) wunlock by (auto simp: cinv_def list_all_iff)
  qed
qed

lemma schedule_reaches:
  "schedule zero ops st = Some st' \<Longrightarrow> rtranclp (cstep zero) st st'"
proof (induction ops arbitrary: st)
  case Nil
  then show ?case by simp
next
  case (Cons op ops)
  then have en: "enabled st op" and rest: "schedule zero ops (perform zero op st) = Some st'"
    by (auto split: if_splits)
  from en have "cstep zero st (perform zero op st)" by (rule cstep.step)
  with Cons.IH [OF rest] show ?case by (rule converse_rtranclp_into_rtranclp [rotated])
qed

lemma cinv_reachable:
  assumes "rtranclp (cstep zero) (cinit pre k todo) st"
  shows "cinv pre todo st"
  using assms
proof (induction rule: rtranclp_induct)
  case base
  show ?case by (rule cinv_init)
next
  case (step y z)
  show ?case by (rule cinv_step [OF step.hyps(2) step.IH])
qed


lemma writer_excludes_readers:
  assumes "rtranclp (cstep zero) (cinit pre k todo) st" and "c_writer st \<noteq> WIdle"
      and "r \<in> set (c_readers st)"
  shows "\<not> holdsRLock r"
proof -
  from cinv_reachable [OF assms(1)] have inv: "cinv pre todo st" .
  with assms(2) have "length (filter holdsRLock (c_readers st)) = 0"
    by (auto simp: cinv_def)
  then show ?thesis using assms(3) by (rule none_hold)
qed

lemma race_runs:
  "schedule ZeroPrefix race (cinit prefixesAB 2 [prefixesBC]) = Some raceEnd"
  by (simp add: race_def raceEnd_def cinit_def prefixesAB_def prefixesBC_def eval_nat_numeral)

lemma raceLate_runs:
  "schedule ZeroPrefix raceLate (cinit prefixesAB 2 [prefixesBC]) = Some raceLateEnd"
  by (simp add: raceLate_def raceLateEnd_def cinit_def prefixesAB_def prefixesBC_def
      eval_nat_numeral)

lemma raceMid_blocks_writer:
  "schedule ZeroPrefix (raceMid @ [DoLock]) (cinit prefixesAB 2 [prefixesBC]) = None"
  by (simp add: raceMid_def cinit_def eval_nat_numeral)

text \<open>
  Claim C2.  In every state that the readers and the refresher can reach, in any
  interleaving of their steps, every read that has returned holds exactly one of the
  snapshots that \<^verbatim>\<open>s.current\<close> has had: the one before the installs or one of the
  installed ones, whole.  With one install it is the snapshot before it or the snapshot
  after it.  The value of \<^verbatim>\<open>s.current\<close> itself is always one of these snapshots.
\<close>

theorem reads_see_whole_snapshots:
  assumes "rtranclp (cstep zero) (cinit pre k todo) st"
      and "i < length (c_readers st)" and "c_readers st ! i = RReturned out"
  shows "out \<in> set (pre # todo) \<and> c_current st \<in> set (pre # todo)
       \<and> (todo = [post] \<longrightarrow> out = pre \<or> out = post)"
proof -
  from cinv_reachable [OF assms(1)] have inv: "cinv pre todo st" .
  have "readerOK st (RReturned out)"
    using readerOK_nth [OF inv assms(2)] assms(3) by simp
  with inv have "out \<in> set (pre # todo)" "c_current st \<in> set (pre # todo)"
    by (auto simp: cinv_def)
  then show ?thesis by auto
qed

theorem reads_see_whole_snapshots_witness:
  "rtranclp (cstep ZeroPrefix) (cinit prefixesAB 2 [prefixesBC]) raceLateEnd
   \<and> c_readers raceLateEnd = [RReturned prefixesAB, RReturned prefixesBC]
   \<and> prefixesBC \<in> set [prefixesAB, prefixesBC]
   \<and> c_current raceLateEnd \<in> set [prefixesAB, prefixesBC]
   \<and> (prefixesBC = prefixesAB \<or> prefixesBC = prefixesBC)"
proof -
  have reach: "rtranclp (cstep ZeroPrefix) (cinit prefixesAB 2 [prefixesBC]) raceLateEnd"
    by (rule schedule_reaches [OF raceLate_runs])
  have rs: "c_readers raceLateEnd = [RReturned prefixesAB, RReturned prefixesBC]"
    by (simp add: raceLateEnd_def)
  have i: "1 < length (c_readers raceLateEnd)"
    and r: "c_readers raceLateEnd ! 1 = RReturned prefixesBC"
    by (simp_all add: rs)
  from reads_see_whole_snapshots [OF reach i r, of prefixesBC] reach rs
  show ?thesis by simp
qed

section \<open>Deduplication\<close>

text \<open>
  Claim C3, as amended.  The prefixes a pass accumulates for install are the parses of
  the well-formed address-range strings it received, over all lists and pages of the
  pass, each string taken once, at its first occurrence: the key of the deduplication is
  the string as the provider sent it, not the canonical string of the parsed prefix.
  The keys are pairwise distinct; the prefixes are pairwise distinct by canonical string
  \<open>str\<close> whenever every well-formed string received is the canonical string of its
  prefix.
\<close>

theorem fetch_dedup_by_received_string:
  assumes "resolveAndFetch fuel d s w = (Some (Inr all), w', evs)"
  shows "all = List.map_filter (ParsePrefix d) (first_seen (returnedCidrs evs))
       \<and> distinct (first_seen (returnedCidrs evs))
       \<and> ((\<forall>c \<in> set (returnedCidrs evs). \<forall>p. ParsePrefix d c = Some p \<longrightarrow> str p = c)
            \<longrightarrow> distinct (map str all))"
proof -
  from assms obtain cfg w0 ids w1 evs1 seen evs2 where parts:
    "resolveIDs d s cfg w0 = (ids, w1, evs1)"
    "fetchAll fuel d cfg ids ({}, []) w1 = (Some (Inr (seen, all)), w', evs2)"
    "evs = evs1 @ evs2"
    by (rule resolveAndFetch_parts)
  let ?cs = "returnedCidrs evs"
  let ?ok = "\<lambda>c. ParsePrefix d c \<noteq> None"
  have cs: "?cs = returnedCidrs evs2"
    using parts(3) describe_no_cidrs [OF resolveIDs_events [OF parts(1)]]
    by (simp add: returnedCidrs_append)
  have "(seen, all) = accOf (ParsePrefix d) ([] @ returnedCidrs evs2)"
    using fetchAll_accOf [of fuel d cfg ids "[]" w1 "(seen, all)" w' evs2] parts(2)
    by (simp add: accOf_Nil)
  then have all: "all = map (the \<circ> ParsePrefix d) (filter ?ok (first_seen ?cs))"
    by (simp add: accOf_def cs filter_first_seen)
  then have 1: "all = List.map_filter (ParsePrefix d) (first_seen ?cs)"
    by (simp add: List.map_filter_def)
  have 2: "distinct (first_seen ?cs)" by (rule distinct_first_seen)
  have 3: "distinct (map str all)"
    if canon: "\<forall>c \<in> set ?cs. \<forall>p. ParsePrefix d c = Some p \<longrightarrow> str p = c"
  proof -
    have "map str all = map (\<lambda>c. c) (filter ?ok (first_seen ?cs))"
      unfolding all map_map
    proof (rule map_cong [OF refl])
      fix c assume "c \<in> set (filter ?ok (first_seen ?cs))"
      then have "c \<in> set ?cs" "ParsePrefix d c \<noteq> None" by (auto simp: set_first_seen)
      with canon show "(str \<circ> (the \<circ> ParsePrefix d)) c = c" by auto
    qed
    then show ?thesis using 2 by simp
  qed
  from 1 2 3 show ?thesis by blast
qed

text \<open>On the provider with the two pages \<open>{A, B}\<close> and \<open>{B, C}\<close>.\<close>

theorem fetch_dedup_by_received_string_witness:
  "resolveAndFetch 2 (tableDeps exampleLists twoPages) exampleSource 0
     = (Some (Inr examplePrefixes), 3, twoPagesEvents)
   \<and> examplePrefixes
     = List.map_filter netip_ParsePrefix (first_seen (returnedCidrs twoPagesEvents))
   \<and> distinct (first_seen (returnedCidrs twoPagesEvents))
   \<and> distinct (map Prefix_String examplePrefixes)"
proof -
  have canon: "\<forall>c \<in> set (returnedCidrs twoPagesEvents).
                 \<forall>p. netip_ParsePrefix c = Some p \<longrightarrow> Prefix_String p = c"
    by (auto simp: twoPagesEvents_def describeV4_def entryCidrs_def entry_def
        parse_facts string_A string_B string_C)
  have d: "ParsePrefix (tableDeps exampleLists twoPages) = netip_ParsePrefix"
    by (simp add: tableDeps_def)
  from fetch_dedup_by_received_string [OF twoPages_fetch, of Prefix_String] canon d twoPages_fetch
  show ?thesis by simp
qed

text \<open>
  The claim as stated fails: Go parses the strings \<open>2600:9000:3000::/36\<close> and
  \<open>2600:9000:3000:0::/36\<close> to the same prefix, the map \<^verbatim>\<open>seen\<close> holds them as two
  keys, and the installed snapshot holds that prefix twice.
\<close>

theorem dedup_by_canonical_string_counterexample:
  "\<not> distinct (map Prefix_String
        (current (fst (snd (refreshOnce 1 (tableDeps exampleLists dualStack)
                              (exampleSource\<lparr>IncludeIPv6 := True\<rparr>) 0)))))"
  using dualStack_refresh by (simp add: dualStackPrefixes_def)

section \<open>A failed page request\<close>

text \<open>
  Claim C4.  If a request for a page of entries fails during a pass, then the pass
  returns the error "get entries" for that list with that cause, the failed request is
  the last event of the pass and the only failed one (the pass aborts at once), nothing
  is assigned to \<^verbatim>\<open>s.current\<close>, and the state of the module, hence the previous
  snapshot, is as it was before the pass.
\<close>

theorem page_failure_aborts_pass:
  assumes "refreshOnce fuel d s w = (r, s', w', evs)"
      and "CallGetEntries inp (Inl err) \<in> set evs"
  shows "\<exists>ident pre. PrefixListId inp = Some ident
           \<and> r = Some (Inl (GetEntriesError ident err))
           \<and> s' = s
           \<and> evs = pre @ [CallGetEntries inp (Inl err)]
           \<and> \<not> list_ex failedGetEntries pre
           \<and> \<not> list_ex isInstall evs"
proof -
  obtain r1 w1 evs1 where rf: "resolveAndFetch fuel d s w = (r1, w1, evs1)"
    by (cases "resolveAndFetch fuel d s w") auto
  note a = resolveAndFetch_aborted [OF rf]
  have fail1: "list_ex failedGetEntries evs1"
  proof (cases "\<exists>all. r1 = Some (Inr all)")
    case False
    with assms(1) rf have "evs = evs1"
      by (auto simp: refreshOnce_def split: option.splits sum.splits)
    with assms(2) show ?thesis by (force simp: list_ex_iff)
  next
    case True
    then obtain all where all: "r1 = Some (Inr all)" by blast
    obtain r2 s2 evs2 where inst: "installFetched s all = (r2, s2, evs2)"
      by (cases "installFetched s all") auto
    from assms(1) rf all inst have "evs = evs1 @ evs2"
      by (auto simp: refreshOnce_def)
    moreover have "CallGetEntries inp (Inl err) \<notin> set evs2"
      using installFetched_events [OF inst] by (auto simp: list_all_iff)
    ultimately show ?thesis using assms(2) by (force simp: list_ex_iff)
  qed
  with a obtain e where e: "r1 = Some (Inl e)" "abortedBy evs1 e" by blast
  with assms(1) rf have eq: "r = Some (Inl e)" "s' = s" "evs = evs1"
    by (auto simp: refreshOnce_def)
  from abortedBy_last [of evs e inp err] e eq assms(2) a show ?thesis by auto
qed

text \<open>The second page of the list is throttled; the snapshot of an earlier pass stays.\<close>

theorem page_failure_aborts_pass_witness:
  "refreshOnce 2 (tableDeps exampleLists brokenPages) (exampleSource\<lparr>current := examplePrefixes\<rparr>) 0
     = (Some (Inl (GetEntriesError ''pl-4'' ''RequestLimitExceeded'')),
        exampleSource\<lparr>current := examplePrefixes\<rparr>, 3, brokenPagesEvents)
   \<and> CallGetEntries (getInput ''pl-4'' (Some ''page2'')) (Inl ''RequestLimitExceeded'')
       \<in> set brokenPagesEvents
   \<and> (\<exists>ident pre. PrefixListId (getInput ''pl-4'' (Some ''page2'')) = Some ident
         \<and> Some (Inl (GetEntriesError ''pl-4'' ''RequestLimitExceeded''))
             = Some (Inl (GetEntriesError ident ''RequestLimitExceeded'') :: error + unit)
         \<and> brokenPagesEvents
             = pre @ [CallGetEntries (getInput ''pl-4'' (Some ''page2'')) (Inl ''RequestLimitExceeded'')]
         \<and> \<not> list_ex failedGetEntries pre
         \<and> \<not> list_ex isInstall brokenPagesEvents)"
proof -
  have mem: "CallGetEntries (getInput ''pl-4'' (Some ''page2'')) (Inl ''RequestLimitExceeded'')
               \<in> set brokenPagesEvents"
    by (simp add: brokenPagesEvents_def)
  from page_failure_aborts_pass [OF brokenPages_refresh mem] brokenPages_refresh mem
  show ?thesis by simp
qed

section \<open>Stopping twice\<close>

text \<open>
  Claim C5.  The claim asks that every invocation of \<^verbatim>\<open>Cleanup\<close> returns without a
  fault.  After a successful \<^verbatim>\<open>Provision\<close> the first \<^verbatim>\<open>Cleanup\<close> closes the channel
  and returns \<^verbatim>\<open>nil\<close>; it leaves the field \<^verbatim>\<open>stopCh\<close> pointing to the closed channel,
  so the second \<^verbatim>\<open>Cleanup\<close> closes a closed channel, which panics.
\<close>

theorem cleanup_twice_panics:
  assumes "Provision fuel d getenv s w = (Some (Inr ()), s1, w', evs)"
  shows "Cleanup s1 = Inr (None, s1\<lparr>stopCh := Some Closed\<rparr>)
       \<and> Cleanup (s1\<lparr>stopCh := Some Closed\<rparr>) = Inl CloseOfClosedChannel"
  using Provision_started [OF assms] by (simp add: Cleanup_def closeChan_def)

text \<open>The run of \<^verbatim>\<open>Provision\<close> on the provider with two pages, stopped twice.\<close>

theorem cleanup_twice_panics_witness:
  "Provision 2 (tableDeps exampleLists twoPages) (\<lambda>v. []) exampleSource 0
   = (Some (Inr ()), exampleSource\<lparr>current := examplePrefixes, stopCh := Some Open\<rparr>, 3,
      twoPagesEvents @ [Install examplePrefixes])
   \<and> Cleanup (exampleSource\<lparr>current := examplePrefixes, stopCh := Some Open\<rparr>)
     = Inr (None, exampleSource\<lparr>current := examplePrefixes, stopCh := Some Closed\<rparr>)
   \<and> Cleanup (exampleSource\<lparr>current := examplePrefixes, stopCh := Some Closed\<rparr>)
     = Inl CloseOfClosedChannel"
  using cleanup_twice_panics [OF twoPages_Provision] twoPages_Provision by simp

section \<open>Stopping the refresher\<close>

lemma refreshOnce_stopCh:
  assumes "refreshOnce fuel d s w = (r, s', w', evs)"
  shows "stopCh s' = stopCh s"
  using assms
  by (auto simp: refreshOnce_def installFetched_def Let_def
      split: prod.splits option.splits sum.splits if_splits)

lemma exited_step:
  assumes "sstep d st st'" and "g_loop st = Exited"
  shows "g_loop st' = Exited \<and> g_events st' = g_events st
       \<and> current (g_src st') = current (g_src st)"
  using assms
  by (cases rule: sstep.cases) (auto simp: Cleanup_def closeChan_def)

lemma exited_steps:
  assumes "rtranclp (sstep d) st st'" and "g_loop st = Exited"
  shows "g_loop st' = Exited \<and> g_events st' = g_events st
       \<and> current (g_src st') = current (g_src st)"
  using assms
proof (induction rule: rtranclp_induct)
  case base
  then show ?case by simp
next
  case (step y z)
  with exited_step [of d y z] show ?case by simp
qed

lemma stop_while_blocked:
  assumes "sstep d st st1" and "g_loop st = Blocked"
      and "stopCh (g_src st) = Some Open" and "stopCh (g_src st1) = Some Closed"
  shows "g_loop st1 = Exited \<and> g_events st1 = g_events st
       \<and> current (g_src st1) = current (g_src st)"
  using assms
  by (cases rule: sstep.cases) (auto simp: Cleanup_def closeChan_def)

text \<open>
  Claim C6, as amended.  Once the loop of the refresher has exited, nothing is
  installed any more, whatever the ticker and the host do: the events and the snapshot
  stay as they are.  A stop signal delivered while the loop is blocked in its
  \<^verbatim>\<open>select\<close> makes it exit at once, so no install follows that signal.
\<close>

theorem no_install_after_loop_exit:
  "(g_loop st = Exited \<and> rtranclp (sstep d) st st' \<longrightarrow>
      installs (g_events st') = installs (g_events st)
      \<and> current (g_src st') = current (g_src st) \<and> g_loop st' = Exited)
   \<and> (g_loop st = Blocked \<and> stopCh (g_src st) = Some Open \<and> sstep d st st1
        \<and> stopCh (g_src st1) = Some Closed \<and> rtranclp (sstep d) st1 st' \<longrightarrow>
      installs (g_events st') = installs (g_events st)
      \<and> current (g_src st') = current (g_src st) \<and> g_loop st' = Exited)"
proof (intro conjI impI)
  assume h: "g_loop st = Exited \<and> rtranclp (sstep d) st st'"
  with exited_steps [of d st st']
  show "installs (g_events st') = installs (g_events st)"
    "current (g_src st') = current (g_src st)" "g_loop st' = Exited"
    by simp_all
next
  assume h: "g_loop st = Blocked \<and> stopCh (g_src st) = Some Open \<and> sstep d st st1
        \<and> stopCh (g_src st1) = Some Closed \<and> rtranclp (sstep d) st1 st'"
  with stop_while_blocked [of d st st1] have
    1: "g_loop st1 = Exited \<and> g_events st1 = g_events st
        \<and> current (g_src st1) = current (g_src st)"
    by simp
  with h exited_steps [of d st1 st']
  show "installs (g_events st') = installs (g_events st)"
    "current (g_src st') = current (g_src st)" "g_loop st' = Exited"
    by simp_all
qed

lemma run_pass:
  "refreshOnce 2 (tableDeps exampleLists twoPages)
     (exampleSource\<lparr>current := examplePrefixes, stopCh := Some Closed\<rparr>) 3
   = (Some (Inr ()), exampleSource\<lparr>current := examplePrefixes, stopCh := Some Closed\<rparr>, 6,
      twoPagesEvents @ [Install examplePrefixes])"
  by (simp add: pass_defs example_defs twoPages_def twoPagesEvents_def examplePrefixes_def
      parse_facts)

lemma run_steps:
  "sstep (tableDeps exampleLists twoPages) run0 run1"
  "sstep (tableDeps exampleLists twoPages) run1 run2"
  "sstep (tableDeps exampleLists twoPages) run2 run3"
  "sstep (tableDeps exampleLists twoPages) run3 run4"
  "sstep (tableDeps exampleLists twoPages) run4 run5"
proof -
  let ?D = "tableDeps exampleLists twoPages"
  have "sstep ?D run0 (run0\<lparr>g_tickC := True\<rparr>)"
    by (rule sstep.tick_buffered) (simp add: run0_def)
  then show "sstep ?D run0 run1" by (simp add: run1_def)
  have "sstep ?D run1
          (run1\<lparr>g_src := exampleSource\<lparr>current := examplePrefixes, stopCh := Some Closed\<rparr>,
                g_loop := (if g_loop run1 = Blocked then Exited else g_loop run1)\<rparr>)"
    by (rule sstep.stop [where err = None])
       (simp_all add: run1_def run0_def Cleanup_def closeChan_def exampleSource_def)
  then show "sstep ?D run1 run2" by (simp add: run2_def run1_def run0_def)
  have "sstep ?D run2 (run2\<lparr>g_tickC := False, g_loop := InPass\<rparr>)"
    by (rule sstep.select_tick) (simp_all add: run2_def run1_def run0_def)
  then show "sstep ?D run2 run3" by (simp add: run3_def)
  have "sstep ?D run3
          (run3\<lparr>g_src := exampleSource\<lparr>current := examplePrefixes, stopCh := Some Closed\<rparr>,
                g_world := 6,
                g_events := g_events run3 @ twoPagesEvents @ [Install examplePrefixes],
                g_loop := Selecting\<rparr>)"
    by (rule sstep.pass [where fuel = 2 and r = "Inr ()"])
       (simp_all add: run3_def run2_def run1_def run0_def run_pass)
  then show "sstep ?D run3 run4" by (simp add: run4_def run3_def run2_def run1_def run0_def)
  have "sstep ?D run4 (run4\<lparr>g_loop := Exited\<rparr>)"
    by (rule sstep.select_stop) (simp_all add: run4_def run3_def run2_def run1_def run0_def)
  then show "sstep ?D run4 run5" by (simp add: run5_def)
qed

lemma idle_step: "sstep (tableDeps exampleLists twoPages) idle0 idle1"
proof -
  have "sstep (tableDeps exampleLists twoPages) idle0
          (idle0\<lparr>g_src := exampleSource\<lparr>current := examplePrefixes, stopCh := Some Closed\<rparr>,
                 g_loop := (if g_loop idle0 = Blocked then Exited else g_loop idle0)\<rparr>)"
    by (rule sstep.stop [where err = None])
       (simp_all add: idle0_def run0_def Cleanup_def closeChan_def exampleSource_def)
  then show ?thesis by (simp add: idle1_def idle0_def run0_def)
qed

text \<open>
  The loop that has exited after the run of the example, and the loop stopped while
  blocked.
\<close>

theorem no_install_after_loop_exit_witness:
  "g_loop run5 = Exited
   \<and> rtranclp (sstep (tableDeps exampleLists twoPages)) run5 run5
   \<and> g_loop idle0 = Blocked \<and> stopCh (g_src idle0) = Some Open
   \<and> sstep (tableDeps exampleLists twoPages) idle0 idle1
   \<and> stopCh (g_src idle1) = Some Closed
   \<and> installs (g_events idle1) = installs (g_events idle0)
   \<and> current (g_src idle1) = current (g_src idle0)
   \<and> g_loop idle1 = Exited"
proof -
  let ?D = "tableDeps exampleLists twoPages"
  have a: "g_loop run5 = Exited" "rtranclp (sstep ?D) run5 run5"
    by (simp_all add: run5_def)
  have b: "g_loop idle0 = Blocked" "stopCh (g_src idle0) = Some Open"
    "stopCh (g_src idle1) = Some Closed" "rtranclp (sstep ?D) idle1 idle1"
    by (simp_all add: idle0_def idle1_def run0_def)
  from no_install_after_loop_exit [of run5 ?D run5] a
       no_install_after_loop_exit [of idle0 ?D idle1 idle1] b idle_step
  show ?thesis by simp
qed

text \<open>
  The claim as stated fails: in the run of the example the stop signal has been
  delivered in the third state, and the pass that follows installs a snapshot.
\<close>

theorem install_after_stop_counterexample:
  "rtranclp (sstep (tableDeps exampleLists twoPages)) run0 run2
   \<and> stopCh (g_src run2) = Some Closed
   \<and> rtranclp (sstep (tableDeps exampleLists twoPages)) run2 run4
   \<and> length (installs (g_events run4)) = Suc (length (installs (g_events run2)))"
proof -
  have "rtranclp (sstep (tableDeps exampleLists twoPages)) run0 run2"
    using run_steps(1,2) by (meson rtranclp.rtrancl_into_rtrancl rtranclp.rtrancl_refl)
  moreover have "rtranclp (sstep (tableDeps exampleLists twoPages)) run2 run4"
    using run_steps(3,4) by (meson rtranclp.rtrancl_into_rtrancl rtranclp.rtrancl_refl)
  moreover have "stopCh (g_src run2) = Some Closed"
    by (simp add: run2_def)
  moreover have "length (installs (g_events run4)) = Suc (length (installs (g_events run2)))"
    by (simp add: run4_def run3_def run2_def run1_def run0_def installs_def twoPagesEvents_def
        describeV4_def)
  ultimately show ?thesis by simp
qed

section \<open>Paging and malformed entries\<close>

lemma fetchPages_serves:
  assumes "servesPages d ec2c ident tok' w outs w'"
      and "tok' = pageTokenOrNil tok" and "length outs \<le> fuel"
  shows "fetchPages fuel d ec2c ident tok acc w
         = (Some (Inr (foldl (\<lambda>a out. addEntries (ParsePrefix d) (Entries out) a) acc outs)),
            w', pageEvents ident tok' outs)"
  using assms
proof (induction arbitrary: tok acc fuel rule: servesPages.induct)
  case (lastPage tok' w out w')
  then obtain k where "fuel = Suc k" by (cases fuel) auto
  with lastPage show ?case
    by (auto simp: getEntriesCall_def Let_def)
next
  case (nextPage tok' w out w1 t outs w')
  then obtain k where k: "fuel = Suc k" "length outs \<le> k" by (cases fuel) auto
  have "Some t = pageTokenOrNil (Some t)"
    using nextPage.hyps by (simp add: pageTokenOrNil_def)
  from nextPage.IH [OF this k(2)] nextPage.hyps nextPage.prems k
  show ?case
    by (simp add: getEntriesCall_def Let_def)
qed

lemma addEntries_skips_malformed:
  "addEntries parse es acc = addEntries parse (filter (wellFormed parse) es) acc"
proof (induction es arbitrary: acc)
  case Nil
  then show ?case by simp
next
  case (Cons e es)
  obtain seen all where acc: "acc = (seen, all)" by (cases acc)
  show ?case
  proof (cases "wellFormed parse e")
    case True
    then show ?thesis
      using Cons.IH acc by (auto simp: wellFormed_def split: option.splits)
  next
    case False
    then have "addEntries parse (e # es) acc = addEntries parse es acc"
      using acc by (auto simp: wellFormed_def split: option.splits)
    with False Cons.IH show ?thesis by simp
  qed
qed

lemma resolveAndFetch_all:
  assumes "resolveAndFetch fuel d s w = (Some (Inr all), w', evs)"
  shows "all = map (the \<circ> ParsePrefix d)
                 (first_seen (filter (\<lambda>c. ParsePrefix d c \<noteq> None) (returnedCidrs evs)))"
proof -
  from assms obtain cfg w0 ids w1 evs1 seen evs2 where parts:
    "resolveIDs d s cfg w0 = (ids, w1, evs1)"
    "fetchAll fuel d cfg ids ({}, []) w1 = (Some (Inr (seen, all)), w', evs2)"
    "evs = evs1 @ evs2"
    by (rule resolveAndFetch_parts)
  have cs: "returnedCidrs evs = returnedCidrs evs2"
    using parts(3) describe_no_cidrs [OF resolveIDs_events [OF parts(1)]]
    by (simp add: returnedCidrs_append)
  have "(seen, all) = accOf (ParsePrefix d) ([] @ returnedCidrs evs2)"
    using fetchAll_accOf [of fuel d cfg ids "[]" w1 "(seen, all)" w' evs2] parts(2)
    by (simp add: accOf_Nil)
  then show ?thesis by (simp add: accOf_def cs)
qed

lemma entryCidrs_append: "entryCidrs (xs @ ys) = entryCidrs xs @ entryCidrs ys"
  by (simp add: entryCidrs_def map_filter_def)

lemma returnedCidrs_entries: "returnedCidrs evs = entryCidrs (returnedEntries evs)"
  by (induction evs rule: returnedCidrs.induct)
     (simp_all add: entryCidrs_append, simp add: entryCidrs_def map_filter_def)

lemma wellFormed_cidrs:
  "filter (\<lambda>c. parse c \<noteq> None) (entryCidrs es) = map (the \<circ> Cidr) (filter (wellFormed parse) es)"
  by (induction es) (auto simp: entryCidrs_def map_filter_def wellFormed_def split: option.splits)

lemma resolveAndFetch_prefixesOf:
  assumes "resolveAndFetch fuel d s w = (Some (Inr all), w', evs)"
  shows "all = prefixesOf (ParsePrefix d) (returnedEntries evs)"
proof -
  have "all = map (the \<circ> ParsePrefix d)
                (first_seen (filter (\<lambda>c. ParsePrefix d c \<noteq> None) (returnedCidrs evs)))"
    by (rule resolveAndFetch_all [OF assms])
  then show ?thesis
    by (simp only: prefixesOf_def returnedCidrs_entries wellFormed_cidrs)
qed

lemma returnedEntries_append:
  "returnedEntries (xs @ ys) = returnedEntries xs @ returnedEntries ys"
  by (induction xs rule: returnedEntries.induct) simp_all

lemma describe_no_entries: "list_all isDescribe evs \<Longrightarrow> returnedEntries evs = []"
  by (induction evs rule: returnedEntries.induct) simp_all

lemma returnedEntries_pageEvents:
  "returnedEntries (pageEvents ident tok outs) = concat (map Entries outs)"
  by (induction outs arbitrary: tok) simp_all

lemma returnedEntries_listEvents:
  "servesLists d ec2c ids w outss w' \<Longrightarrow> returnedEntries (listEvents ids outss) = servedEntries outss"
  by (induction rule: servesLists.induct)
     (simp_all add: servedEntries_def returnedEntries_append returnedEntries_pageEvents)

lemma fetchAll_serves:
  assumes "servesLists d ec2c ids w outss w'" and "\<forall>outs\<in>set outss. length outs \<le> fuel"
  shows "fetchAll fuel d ec2c ids acc w
         = (Some (Inr (foldl (\<lambda>a out. addEntries (ParsePrefix d) (Entries out) a) acc
                         (concat outss))),
            w', listEvents ids outss)"
  using assms
proof (induction arbitrary: acc rule: servesLists.induct)
  case (noLists w)
  show ?case by simp
next
  case (nextList ident w outs w1 ids outss w')
  have tok: "None = pageTokenOrNil (Some [])" by (simp add: pageTokenOrNil_def)
  have len: "length outs \<le> fuel" using nextList.prems by simp
  have rest: "\<forall>outs\<in>set outss. length outs \<le> fuel" using nextList.prems by simp
  from fetchPages_serves [OF nextList.hyps(1) tok len, of acc] nextList.IH [OF rest]
  show ?case by simp
qed

lemma pass_pages_every_list:
  assumes cfg: "loadAWSConfig d s w = (Inr cfg, w0)"
      and ids: "resolveIDs d s cfg w0 = (ids, w1, evs1)"
      and serves: "servesLists d cfg ids w1 outss w'"
      and fuel: "\<forall>outs\<in>set outss. length outs \<le> fuel"
  shows "resolveAndFetch fuel d s w
         = (Some (Inr (prefixesOf (ParsePrefix d) (servedEntries outss))), w',
            evs1 @ listEvents ids outss)"
proof -
  obtain seen all where acc:
    "foldl (\<lambda>a out. addEntries (ParsePrefix d) (Entries out) a) ({}, []) (concat outss)
     = (seen, all)"
    by (cases "foldl (\<lambda>a out. addEntries (ParsePrefix d) (Entries out) a) ({}, [])
                 (concat outss)")
  have run: "resolveAndFetch fuel d s w = (Some (Inr all), w', evs1 @ listEvents ids outss)"
    using cfg ids fetchAll_serves [OF serves fuel, of "({}, [])"] acc
    by (simp add: resolveAndFetch_def)
  have "returnedEntries (evs1 @ listEvents ids outss) = servedEntries outss"
    using describe_no_entries [OF resolveIDs_events [OF ids]]
          returnedEntries_listEvents [OF serves]
    by (simp add: returnedEntries_append)
  with resolveAndFetch_prefixesOf [OF run]
  have "all = prefixesOf (ParsePrefix d) (servedEntries outss)" by simp
  with run show ?thesis by simp
qed

lemma one_malformed_two_wellformed:
  assumes run: "resolveAndFetch fuel d s w = (Some (Inr all), w', evs)"
      and one: "length (filter (\<lambda>e. \<not> wellFormed (ParsePrefix d) e) (returnedEntries evs)) = 1"
      and two: "map Cidr (filter (wellFormed (ParsePrefix d)) (returnedEntries evs))
                = [Some a, Some b]"
      and ab: "a \<noteq> b"
  shows "length all = 2 \<and> map Some all = [ParsePrefix d a, ParsePrefix d b]
       \<and> refreshOnce fuel d s w = (Some (Inr ()), s\<lparr>current := all\<rparr>, w', evs @ [Install all])"
proof -
  let ?wf = "filter (wellFormed (ParsePrefix d)) (returnedEntries evs)"
  from two obtain e1 e2 where es: "?wf = [e1, e2]" "Cidr e1 = Some a" "Cidr e2 = Some b"
    by (auto simp: map_eq_Cons_conv)
  have "e1 \<in> set ?wf" "e2 \<in> set ?wf" using es(1) by simp_all
  then have "wellFormed (ParsePrefix d) e1" "wellFormed (ParsePrefix d) e2" by simp_all
  then obtain pa pb where p: "ParsePrefix d a = Some pa" "ParsePrefix d b = Some pb"
    using es(2,3) by (auto simp: wellFormed_def)
  have "all = prefixesOf (ParsePrefix d) (returnedEntries evs)"
    by (rule resolveAndFetch_prefixesOf [OF run])
  then have all: "all = [pa, pb]"
    using es p ab by (simp add: prefixesOf_def first_seen_def)
  with run have "refreshOnce fuel d s w
      = (Some (Inr ()), s\<lparr>current := all\<rparr>, w', evs @ [Install all])"
    by (simp add: refreshOnce_def installFetched_def)
  with all p show ?thesis by simp
qed

lemma pages_AB_BC:
  assumes cfg: "loadAWSConfig d s w = (Inr cfg, w0)"
      and ids: "resolveIDs d s cfg w0 = ([ident], w1, evs1)"
      and serves: "servesPages d cfg ident None w1 [p1, p2] w2"
      and entries: "map Cidr (Entries p1) = [Some a, Some b]"
                   "map Cidr (Entries p2) = [Some b, Some c]"
      and dist: "distinct [a, b, c]"
      and parses: "ParsePrefix d a = Some pa" "ParsePrefix d b = Some pb" "ParsePrefix d c = Some pc"
      and fuel: "2 \<le> fuel"
  shows "refreshOnce fuel d s w
         = (Some (Inr ()), s\<lparr>current := [pa, pb, pc]\<rparr>, w2,
            evs1 @ pageEvents ident None [p1, p2] @ [Install [pa, pb, pc]])"
proof -
  from entries(1) obtain e1 e2 where p1: "Entries p1 = [e1, e2]" "Cidr e1 = Some a" "Cidr e2 = Some b"
    by (auto simp: map_eq_Cons_conv)
  from entries(2) obtain e3 e4 where p2: "Entries p2 = [e3, e4]" "Cidr e3 = Some b" "Cidr e4 = Some c"
    by (auto simp: map_eq_Cons_conv)
  have tok: "None = pageTokenOrNil (Some [])" by (simp add: pageTokenOrNil_def)
  have len: "length [p1, p2] \<le> fuel" using fuel by simp
  have acc: "foldl (\<lambda>a out. addEntries (ParsePrefix d) (Entries out) a) ({}, []) [p1, p2]
             = ({a, b, c}, [pa, pb, pc])"
    using p1 p2 dist parses by auto
  have "fetchPages fuel d cfg ident (Some []) ({}, []) w1
        = (Some (Inr ({a, b, c}, [pa, pb, pc])), w2, pageEvents ident None [p1, p2])"
    using fetchPages_serves [OF serves tok len, of "({}, [])"] acc by simp
  then have "resolveAndFetch fuel d s w
        = (Some (Inr [pa, pb, pc]), w2, evs1 @ pageEvents ident None [p1, p2])"
    using cfg ids by (simp add: resolveAndFetch_def)
  then show ?thesis by (simp add: refreshOnce_def installFetched_def)
qed

text \<open>
  Claim C7.  (1) Every resolved list is paged to its end: when the configuration loads,
  the lists \<open>ids\<close> are resolved, and the provider serves each of them in pages, each
  page but the last of a list with a non-empty continuation token and the last with an
  empty or absent one, then the pass, given fuel for the longest list, issues exactly
  the requests for all pages of all lists of \<open>ids\<close>, in the order of \<open>ids\<close>, each
  request carrying the token of the page before it, and nothing else after the
  resolution; its slice is made of the prefixes of the well-formed entries on all these
  pages, each string once; and when the slice is not empty the pass returns \<^verbatim>\<open>nil\<close> and
  installs it.  (2) For one list, the paging loop issues exactly the requests of its
  pages and stops at the last page.  (3) Entries without a string, or whose string does
  not parse, are skipped without an error: the loop over the entries gives the same
  result as on the well-formed entries alone.  (4) A pass that receives one malformed
  entry and two well-formed entries with different strings, in any order and on any
  pages, returns \<^verbatim>\<open>nil\<close> and installs a snapshot of size 2, the prefixes of the two
  strings.  (5) A pass whose one resolved list is served as the page \<open>{A, B}\<close> and then
  the page \<open>{B, C}\<close>, with \<open>A\<close>, \<open>B\<close>, \<open>C\<close> distinct and well-formed, returns \<^verbatim>\<open>nil\<close>
  and installs exactly the prefixes of \<open>A\<close>, \<open>B\<close>, \<open>C\<close>.
\<close>

theorem pages_until_empty_token_skipping_malformed:
  "(loadAWSConfig d s w = (Inr cfg, w0) \<and> resolveIDs d s cfg w0 = (ids, w1, evs1)
      \<and> servesLists d cfg ids w1 outss w2 \<and> (\<forall>outs\<in>set outss. length outs \<le> fuel) \<longrightarrow>
      resolveAndFetch fuel d s w
      = (Some (Inr (prefixesOf (ParsePrefix d) (servedEntries outss))), w2,
         evs1 @ listEvents ids outss)
      \<and> (prefixesOf (ParsePrefix d) (servedEntries outss) \<noteq> [] \<longrightarrow>
           refreshOnce fuel d s w
           = (Some (Inr ()), s\<lparr>current := prefixesOf (ParsePrefix d) (servedEntries outss)\<rparr>, w2,
              evs1 @ listEvents ids outss
                @ [Install (prefixesOf (ParsePrefix d) (servedEntries outss))])))
   \<and> (servesPages d ec2c ident (pageTokenOrNil tok) w outs w' \<and> length outs \<le> fuel \<longrightarrow>
      fetchPages fuel d ec2c ident tok acc w
      = (Some (Inr (foldl (\<lambda>a out. addEntries (ParsePrefix d) (Entries out) a) acc outs)),
         w', pageEvents ident (pageTokenOrNil tok) outs))
   \<and> addEntries parse es acc = addEntries parse (filter (wellFormed parse) es) acc
   \<and> (resolveAndFetch fuel d s w = (Some (Inr all), w', evs)
        \<and> length (filter (\<lambda>e. \<not> wellFormed (ParsePrefix d) e) (returnedEntries evs)) = 1
        \<and> map Cidr (filter (wellFormed (ParsePrefix d)) (returnedEntries evs)) = [Some a, Some b]
        \<and> a \<noteq> b \<longrightarrow>
      length all = 2 \<and> map Some all = [ParsePrefix d a, ParsePrefix d b]
      \<and> refreshOnce fuel d s w = (Some (Inr ()), s\<lparr>current := all\<rparr>, w', evs @ [Install all]))
   \<and> (loadAWSConfig d s w = (Inr cfg, w0) \<and> resolveIDs d s cfg w0 = ([ident], w1, evs1)
        \<and> servesPages d cfg ident None w1 [p1, p2] w'
        \<and> map Cidr (Entries p1) = [Some a, Some b] \<and> map Cidr (Entries p2) = [Some b, Some c]
        \<and> distinct [a, b, c]
        \<and> ParsePrefix d a = Some pa \<and> ParsePrefix d b = Some pb \<and> ParsePrefix d c = Some pc
        \<and> 2 \<le> fuel \<longrightarrow>
      refreshOnce fuel d s w
      = (Some (Inr ()), s\<lparr>current := [pa, pb, pc]\<rparr>, w',
         evs1 @ pageEvents ident None [p1, p2] @ [Install [pa, pb, pc]]))"
proof (intro conjI impI)
  assume h: "loadAWSConfig d s w = (Inr cfg, w0) \<and> resolveIDs d s cfg w0 = (ids, w1, evs1)
      \<and> servesLists d cfg ids w1 outss w2 \<and> (\<forall>outs\<in>set outss. length outs \<le> fuel)"
  then show run: "resolveAndFetch fuel d s w
      = (Some (Inr (prefixesOf (ParsePrefix d) (servedEntries outss))), w2,
         evs1 @ listEvents ids outss)"
    using pass_pages_every_list [of d s w cfg w0 ids w1 evs1 outss w2 fuel] by blast
  assume "prefixesOf (ParsePrefix d) (servedEntries outss) \<noteq> []"
  with run show "refreshOnce fuel d s w
           = (Some (Inr ()), s\<lparr>current := prefixesOf (ParsePrefix d) (servedEntries outss)\<rparr>, w2,
              evs1 @ listEvents ids outss
                @ [Install (prefixesOf (ParsePrefix d) (servedEntries outss))])"
    by (simp add: refreshOnce_def installFetched_def)
next
  assume "servesPages d ec2c ident (pageTokenOrNil tok) w outs w' \<and> length outs \<le> fuel"
  then show "fetchPages fuel d ec2c ident tok acc w
      = (Some (Inr (foldl (\<lambda>a out. addEntries (ParsePrefix d) (Entries out) a) acc outs)),
         w', pageEvents ident (pageTokenOrNil tok) outs)"
    using fetchPages_serves [of d ec2c ident "pageTokenOrNil tok" w outs w' tok fuel acc] by simp
next
  show "addEntries parse es acc = addEntries parse (filter (wellFormed parse) es) acc"
    by (rule addEntries_skips_malformed)
next
  assume h: "resolveAndFetch fuel d s w = (Some (Inr all), w', evs)
        \<and> length (filter (\<lambda>e. \<not> wellFormed (ParsePrefix d) e) (returnedEntries evs)) = 1
        \<and> map Cidr (filter (wellFormed (ParsePrefix d)) (returnedEntries evs)) = [Some a, Some b]
        \<and> a \<noteq> b"
  from one_malformed_two_wellformed [of fuel d s w all w' evs a b] h
  show "length all = 2" and "map Some all = [ParsePrefix d a, ParsePrefix d b]" and
    "refreshOnce fuel d s w = (Some (Inr ()), s\<lparr>current := all\<rparr>, w', evs @ [Install all])"
    by simp_all
next
  assume h: "loadAWSConfig d s w = (Inr cfg, w0) \<and> resolveIDs d s cfg w0 = ([ident], w1, evs1)
        \<and> servesPages d cfg ident None w1 [p1, p2] w'
        \<and> map Cidr (Entries p1) = [Some a, Some b] \<and> map Cidr (Entries p2) = [Some b, Some c]
        \<and> distinct [a, b, c]
        \<and> ParsePrefix d a = Some pa \<and> ParsePrefix d b = Some pb \<and> ParsePrefix d c = Some pc
        \<and> 2 \<le> fuel"
  then show "refreshOnce fuel d s w
      = (Some (Inr ()), s\<lparr>current := [pa, pb, pc]\<rparr>, w',
         evs1 @ pageEvents ident None [p1, p2] @ [Install [pa, pb, pc]])"
    using pages_AB_BC [of d s w cfg w0 ident w1 evs1 p1 p2 w' a b c pa pb pc fuel] by simp
qed

text \<open>
  The lists \<open>pl-4\<close> and \<open>pl-6\<close> of a pass with IPv6, one page each; the list \<open>pl-4\<close>
  served as the pages \<open>{A, B}\<close> and \<open>{B, C}\<close>, and served as one page with a malformed
  entry between \<open>A\<close> and \<open>B\<close>.
\<close>

theorem pages_until_empty_token_skipping_malformed_witness:
  "servesLists (tableDeps exampleLists dualStack) () [''pl-4'', ''pl-6''] 2 [[page4], [page6]] 4
   \<and> refreshOnce 1 (tableDeps exampleLists dualStack) (exampleSource\<lparr>IncludeIPv6 := True\<rparr>) 0
     = (Some (Inr ()), exampleSource\<lparr>IncludeIPv6 := True, current := dualStackPrefixes\<rparr>, 4,
        [describeV4, describeV6] @ listEvents [''pl-4'', ''pl-6''] [[page4], [page6]]
          @ [Install dualStackPrefixes])
   \<and> servesPages (tableDeps exampleLists twoPages) () ''pl-4'' None 1 [pageAB, pageBC] 3
   \<and> fetchPages 2 (tableDeps exampleLists twoPages) () ''pl-4'' (Some []) ({}, []) 1
     = (Some (Inr (foldl (\<lambda>a out. addEntries netip_ParsePrefix (Entries out) a) ({}, [])
                     [pageAB, pageBC])),
        3, pageEvents ''pl-4'' None [pageAB, pageBC])
   \<and> addEntries netip_ParsePrefix
       [entry ''120.52.22.96/27'', entry ''not-a-cidr'', entry ''205.251.249.0/24''] ({}, [])
     = addEntries netip_ParsePrefix
         [entry ''120.52.22.96/27'', entry ''205.251.249.0/24''] ({}, [])
   \<and> refreshOnce 1 (tableDeps exampleLists malformedPage) exampleSource 0
     = (Some (Inr ()),
        exampleSource\<lparr>current := [PrefixFrom (Addr4 [120, 52, 22, 96]) 27,
                                  PrefixFrom (Addr4 [205, 251, 249, 0]) 24]\<rparr>,
        2,
        malformedPageEvents @ [Install [PrefixFrom (Addr4 [120, 52, 22, 96]) 27,
                                        PrefixFrom (Addr4 [205, 251, 249, 0]) 24]])
   \<and> refreshOnce 2 (tableDeps exampleLists twoPages) exampleSource 0
     = (Some (Inr ()), exampleSource\<lparr>current := examplePrefixes\<rparr>, 3,
        twoPagesEvents @ [Install examplePrefixes])"
proof -
  let ?D = "tableDeps exampleLists twoPages"
  let ?M = "tableDeps exampleLists malformedPage"
  let ?S = "tableDeps exampleLists dualStack"
  let ?A = "''120.52.22.96/27''" and ?B = "''205.251.249.0/24''" and ?C = "''130.176.0.0/17''"
  have pd: "ParsePrefix ?D = netip_ParsePrefix" "ParsePrefix ?M = netip_ParsePrefix"
    "ParsePrefix ?S = netip_ParsePrefix"
    by (simp_all add: tableDeps_def)
  have get4: "GetManagedPrefixListEntries ?S ()
      \<lparr>PrefixListId = Some ''pl-4'', MaxResults = Some maxResultsPerPage, NextToken = None\<rparr> 2
      = (Inr page4, 3)"
    by (simp add: tableDeps_def dualStack_def page4_def)
  have get6: "GetManagedPrefixListEntries ?S ()
      \<lparr>PrefixListId = Some ''pl-6'', MaxResults = Some maxResultsPerPage, NextToken = None\<rparr> 3
      = (Inr page6, 4)"
    by (simp add: tableDeps_def dualStack_def page6_def)
  have s4: "servesPages ?S () ''pl-4'' None 2 [page4] 3"
    by (rule servesPages.lastPage [OF get4]) (simp add: page4_def)
  have s6: "servesPages ?S () ''pl-6'' None 3 [page6] 4"
    by (rule servesPages.lastPage [OF get6]) (simp add: page6_def)
  have lists: "servesLists ?S () [''pl-4'', ''pl-6''] 2 [[page4], [page6]] 4"
    by (rule servesLists.nextList [OF s4 servesLists.nextList [OF s6 servesLists.noLists]])
  have cfgS: "loadAWSConfig ?S (exampleSource\<lparr>IncludeIPv6 := True\<rparr>) 0 = (Inr (), 0)"
    by (simp add: loadAWSConfig_def tableDeps_def exampleSource_def)
  have idsS: "resolveIDs ?S (exampleSource\<lparr>IncludeIPv6 := True\<rparr>) () 0
              = ([''pl-4'', ''pl-6''], 2, [describeV4, describeV6])"
    by (simp add: pass_defs example_defs)
  have wf6: "filter (wellFormed netip_ParsePrefix) (servedEntries [[page4], [page6]])
             = [entry ?A, entry ''2600:9000:3000::/36'', entry ''2600:9000:3000:0::/36'']"
    by (simp add: servedEntries_def page4_def page6_def wellFormed_def entry_def parse_facts)
  have all6: "prefixesOf netip_ParsePrefix (servedEntries [[page4], [page6]]) = dualStackPrefixes"
    by (simp add: prefixesOf_def wf6 entry_def first_seen_def parse_facts dualStackPrefixes_def)
  have part0: "refreshOnce 1 ?S (exampleSource\<lparr>IncludeIPv6 := True\<rparr>) 0
     = (Some (Inr ()), exampleSource\<lparr>IncludeIPv6 := True, current := dualStackPrefixes\<rparr>, 4,
        [describeV4, describeV6] @ listEvents [''pl-4'', ''pl-6''] [[page4], [page6]]
          @ [Install dualStackPrefixes])"
    using pages_until_empty_token_skipping_malformed
            [where d = ?S and s = "exampleSource\<lparr>IncludeIPv6 := True\<rparr>" and w = 0
               and cfg = "()" and ?w0.0 = 0 and ids = "[''pl-4'', ''pl-6'']" and ?w1.0 = 2
               and ?evs1.0 = "[describeV4, describeV6]" and outss = "[[page4], [page6]]"
               and ?w2.0 = 4 and fuel = 1, THEN conjunct1]
          cfgS idsS lists
    by (simp add: pd all6 dualStackPrefixes_def)
  have get1: "GetManagedPrefixListEntries ?D ()
      \<lparr>PrefixListId = Some ''pl-4'', MaxResults = Some maxResultsPerPage, NextToken = None\<rparr> 1
      = (Inr pageAB, 2)"
    by (simp add: tableDeps_def twoPages_def pageAB_def)
  have get2: "GetManagedPrefixListEntries ?D ()
      \<lparr>PrefixListId = Some ''pl-4'', MaxResults = Some maxResultsPerPage,
       NextToken = Some ''page2''\<rparr> 2
      = (Inr pageBC, 3)"
    by (simp add: tableDeps_def twoPages_def pageBC_def)
  have last: "servesPages ?D () ''pl-4'' (Some ''page2'') 2 [pageBC] 3"
    by (rule servesPages.lastPage [OF get2]) (simp add: pageBC_def)
  have serves: "servesPages ?D () ''pl-4'' None 1 [pageAB, pageBC] 3"
    by (rule servesPages.nextPage [OF get1 _ _ last]) (simp_all add: pageAB_def)
  have part1: "fetchPages 2 ?D () ''pl-4'' (Some []) ({}, []) 1
     = (Some (Inr (foldl (\<lambda>a out. addEntries netip_ParsePrefix (Entries out) a) ({}, [])
                     [pageAB, pageBC])),
        3, pageEvents ''pl-4'' None [pageAB, pageBC])"
    using pages_until_empty_token_skipping_malformed
            [where d = ?D and ec2c = "()" and ident = "''pl-4''" and tok = "Some []" and w = 1
               and outs = "[pageAB, pageBC]" and w' = 3 and fuel = 2 and acc = "({}, [])",
             THEN conjunct2, THEN conjunct1]
          serves pd
    by (simp add: pageTokenOrNil_def)
  have wf: "filter (wellFormed netip_ParsePrefix) [entry ?A, entry ''not-a-cidr'', entry ?B]
            = [entry ?A, entry ?B]"
    by (simp add: wellFormed_def entry_def parse_facts)
  have "addEntries netip_ParsePrefix [entry ?A, entry ''not-a-cidr'', entry ?B] ({}, [])
     = addEntries netip_ParsePrefix
         (filter (wellFormed netip_ParsePrefix) [entry ?A, entry ''not-a-cidr'', entry ?B])
         ({}, [])"
    by (rule pages_until_empty_token_skipping_malformed
               [THEN conjunct2, THEN conjunct2, THEN conjunct1])
  then have part2:
    "addEntries netip_ParsePrefix [entry ?A, entry ''not-a-cidr'', entry ?B] ({}, [])
     = addEntries netip_ParsePrefix [entry ?A, entry ?B] ({}, [])"
    by (simp only: wf)
  have ents: "returnedEntries malformedPageEvents = [entry ?A, entry ''not-a-cidr'', entry ?B]"
    by (simp add: malformedPageEvents_def describeV4_def)
  have h1: "length (filter (\<lambda>e. \<not> wellFormed (ParsePrefix ?M) e)
                      (returnedEntries malformedPageEvents)) = 1"
    by (simp add: pd ents wellFormed_def entry_def parse_facts)
  have h2: "map Cidr (filter (wellFormed (ParsePrefix ?M)) (returnedEntries malformedPageEvents))
            = [Some ?A, Some ?B]"
    by (simp add: pd ents wellFormed_def entry_def parse_facts)
  have h3: "?A \<noteq> ?B" by simp
  have part3: "refreshOnce 1 ?M exampleSource 0
     = (Some (Inr ()),
        exampleSource\<lparr>current := [PrefixFrom (Addr4 [120, 52, 22, 96]) 27,
                                  PrefixFrom (Addr4 [205, 251, 249, 0]) 24]\<rparr>,
        2,
        malformedPageEvents @ [Install [PrefixFrom (Addr4 [120, 52, 22, 96]) 27,
                                        PrefixFrom (Addr4 [205, 251, 249, 0]) 24]])"
    by (rule pages_until_empty_token_skipping_malformed
               [where d = ?M and s = exampleSource and w = 0 and fuel = 1 and w' = 2
                  and evs = malformedPageEvents and a = ?A and b = ?B
                  and all = "[PrefixFrom (Addr4 [120, 52, 22, 96]) 27,
                              PrefixFrom (Addr4 [205, 251, 249, 0]) 24]",
                THEN conjunct2, THEN conjunct2, THEN conjunct2, THEN conjunct1, THEN mp,
                OF conjI [OF malformedPage_fetch conjI [OF h1 conjI [OF h2 h3]]],
                THEN conjunct2, THEN conjunct2])
  have cfg: "loadAWSConfig ?D exampleSource 0 = (Inr (), 0)"
    by (simp add: loadAWSConfig_def tableDeps_def exampleSource_def)
  have ids: "resolveIDs ?D exampleSource () 0 = ([''pl-4''], 1, [describeV4])"
    by (simp add: pass_defs example_defs)
  have evs: "twoPagesEvents = [describeV4] @ pageEvents ''pl-4'' None [pageAB, pageBC]"
    by (simp add: twoPagesEvents_def pageAB_def pageBC_def getInput_def maxResultsPerPage_def)
  have part4: "refreshOnce 2 ?D exampleSource 0
     = (Some (Inr ()), exampleSource\<lparr>current := examplePrefixes\<rparr>, 3,
        twoPagesEvents @ [Install examplePrefixes])"
    using pages_until_empty_token_skipping_malformed
            [where d = ?D and s = exampleSource and w = 0 and cfg = "()" and ?w0.0 = 0
               and ident = "''pl-4''" and ?w1.0 = 1 and ?evs1.0 = "[describeV4]"
               and ?p1.0 = pageAB and ?p2.0 = pageBC and w' = 3
               and a = ?A and b = ?B and c = ?C and fuel = 2
               and pa = "PrefixFrom (Addr4 [120, 52, 22, 96]) 27"
               and pb = "PrefixFrom (Addr4 [205, 251, 249, 0]) 24"
               and pc = "PrefixFrom (Addr4 [130, 176, 0, 0]) 17",
             THEN conjunct2, THEN conjunct2, THEN conjunct2, THEN conjunct2]
          cfg ids serves pd
    by (simp add: parse_facts evs examplePrefixes_def pageAB_def pageBC_def entry_def)
  from lists part0 serves part1 part2 part3 part4 show ?thesis by blast
qed

text \<open>
  One malformed entry and two well-formed entries that carry the same string: the pass
  returns \<^verbatim>\<open>nil\<close> and installs a snapshot of size 1.
\<close>

theorem two_equal_wellformed_entries_counterexample:
  "length (filter (\<lambda>e. \<not> wellFormed netip_ParsePrefix e) (returnedEntries duplicatePageEvents)) = 1
   \<and> length (filter (wellFormed netip_ParsePrefix) (returnedEntries duplicatePageEvents)) = 2
   \<and> refreshOnce 1 (tableDeps exampleLists duplicatePage) exampleSource 0
     = (Some (Inr ()), exampleSource\<lparr>current := [PrefixFrom (Addr4 [120, 52, 22, 96]) 27]\<rparr>, 2,
        duplicatePageEvents @ [Install [PrefixFrom (Addr4 [120, 52, 22, 96]) 27]])
   \<and> length (current (fst (snd (refreshOnce 1 (tableDeps exampleLists duplicatePage)
                                  exampleSource 0)))) = 1"
proof -
  have ents: "returnedEntries duplicatePageEvents
              = [entry ''120.52.22.96/27'', entry ''not-a-cidr'', entry ''120.52.22.96/27'']"
    by (simp add: duplicatePageEvents_def describeV4_def)
  have one: "length (filter (\<lambda>e. \<not> wellFormed netip_ParsePrefix e)
                       (returnedEntries duplicatePageEvents)) = 1"
    by (simp add: ents wellFormed_def entry_def parse_facts)
  have two: "length (filter (wellFormed netip_ParsePrefix)
                       (returnedEntries duplicatePageEvents)) = 2"
    by (simp add: ents wellFormed_def entry_def parse_facts)
  have run: "refreshOnce 1 (tableDeps exampleLists duplicatePage) exampleSource 0
     = (Some (Inr ()), exampleSource\<lparr>current := [PrefixFrom (Addr4 [120, 52, 22, 96]) 27]\<rparr>, 2,
        duplicatePageEvents @ [Install [PrefixFrom (Addr4 [120, 52, 22, 96]) 27]])"
    by (simp add: pass_defs example_defs duplicatePage_def duplicatePageEvents_def parse_facts)
  from one two run show ?thesis by simp
qed

section \<open>The identifier bypass\<close>

text \<open>
  Claim C8, as amended.  \<^verbatim>\<open>resolvePrefixListID\<close> returns an explicit identifier at
  once and as it is, with no call and no check.  A pass of a configuration with an
  explicit identifier and without IPv6 issues no call to
  \<^verbatim>\<open>DescribeManagedPrefixLists\<close>.  With IPv6 included, a pass whose configuration
  loads issues exactly one such call, for the default name of the IPv6 list, which is
  always resolved by name.
\<close>

theorem explicit_id_skips_name_lookup:
  "(explicitID \<noteq> [] \<longrightarrow>
      resolvePrefixListID d s ec2c explicitID name defaultName w = ((explicitID, None), w, []))
   \<and> (PrefixListID s \<noteq> [] \<and> \<not> IncludeIPv6 s \<and> refreshOnce fuel d s w = (r, s', w', evs)
        \<longrightarrow> describeCalls evs = [])
   \<and> (PrefixListID s \<noteq> [] \<and> IncludeIPv6 s \<and> refreshOnce fuel d s w = (r, s', w', evs)
        \<and> loadAWSConfig d s w = (Inr cfg, w0)
        \<longrightarrow> describeCalls evs =
              [\<lparr>Filters = [\<lparr>Name = Some ''prefix-list-name'', Values = [defaultPLNameV6]\<rparr>],
                di_MaxResults = Some 100\<rparr>])"
proof (intro conjI impI)
  assume "explicitID \<noteq> []"
  then show "resolvePrefixListID d s ec2c explicitID name defaultName w = ((explicitID, None), w, [])"
    by (simp add: resolvePrefixListID_def)
next
  assume a: "PrefixListID s \<noteq> [] \<and> \<not> IncludeIPv6 s \<and> refreshOnce fuel d s w = (r, s', w', evs)"
  obtain lc w1 where lc: "loadAWSConfig d s w = (lc, w1)" by (cases "loadAWSConfig d s w")
  show "describeCalls evs = []"
  proof (cases lc)
    case (Inl err)
    with a lc refreshOnce_config_failed [of fuel d s w r s' w' evs err w1] show ?thesis by simp
  next
    case (Inr c)
    obtain ids w2 evs1 where ri: "resolveIDs d s c w1 = (ids, w2, evs1)"
      by (cases "resolveIDs d s c w1") auto
    with a lc Inr refreshOnce_describeCalls [of fuel d s w r s' w' evs c w1]
      resolveIDs_describeCalls [OF ri]
    show ?thesis by simp
  qed
next
  assume a: "PrefixListID s \<noteq> [] \<and> IncludeIPv6 s \<and> refreshOnce fuel d s w = (r, s', w', evs)
        \<and> loadAWSConfig d s w = (Inr cfg, w0)"
  obtain ids w2 evs1 where ri: "resolveIDs d s cfg w0 = (ids, w2, evs1)"
    by (cases "resolveIDs d s cfg w0") auto
  with a refreshOnce_describeCalls [of fuel d s w r s' w' evs cfg w0]
    resolveIDs_describeCalls [OF ri]
  show "describeCalls evs =
      [\<lparr>Filters = [\<lparr>Name = Some ''prefix-list-name'', Values = [defaultPLNameV6]\<rparr>],
        di_MaxResults = Some 100\<rparr>]"
    by simp
qed

text \<open>The three parts, on the example providers.\<close>

theorem explicit_id_skips_name_lookup_witness:
  "resolvePrefixListID (tableDeps exampleLists twoPages) exampleSource () ''pl-4''
      defaultPLNameV4 defaultPLNameV4 0 = ((''pl-4'', None), 0, [])
   \<and> describeCalls (tl twoPagesEvents @ [Install examplePrefixes]) = []
   \<and> describeCalls ([describeV6] @ dualStackGets @ [Install dualStackPrefixes])
       = [describeInput defaultPLNameV6]"
proof -
  let ?s2 = "exampleSource\<lparr>PrefixListID := ''pl-4''\<rparr>"
  let ?s3 = "exampleSource\<lparr>PrefixListID := ''pl-4'', IncludeIPv6 := True\<rparr>"
  have c2: "PrefixListID ?s2 \<noteq> []" "\<not> IncludeIPv6 ?s2"
    by (simp_all add: exampleSource_def)
  have c3: "PrefixListID ?s3 \<noteq> []" "IncludeIPv6 ?s3"
    by (simp_all add: exampleSource_def)
  have l3: "loadAWSConfig (tableDeps exampleLists dualStack) ?s3 0 = (Inr (), 0)"
    by (simp add: loadAWSConfig_def tableDeps_def exampleSource_def)
  have n: "(''pl-4'' :: string) \<noteq> []" by simp
  from explicit_id_skips_name_lookup
         [of "''pl-4''" "tableDeps exampleLists twoPages" exampleSource "()"
             defaultPLNameV4 defaultPLNameV4 0]
       n
  have 1: "resolvePrefixListID (tableDeps exampleLists twoPages) exampleSource () ''pl-4''
      defaultPLNameV4 defaultPLNameV4 0 = ((''pl-4'', None), 0, [])"
    by blast
  from explicit_id_skips_name_lookup
         [where s = ?s2 and d = "tableDeps exampleLists twoPages" and fuel = 2 and w = 0]
       c2 twoPages_explicit_refresh
  have 2: "describeCalls (tl twoPagesEvents @ [Install examplePrefixes]) = []"
    by blast
  from explicit_id_skips_name_lookup
         [where s = ?s3 and d = "tableDeps exampleLists dualStack" and fuel = 1 and w = 0]
       c3 dualStack_explicit_refresh l3
  have 3: "describeCalls ([describeV6] @ dualStackGets @ [Install dualStackPrefixes])
       = [describeInput defaultPLNameV6]"
    unfolding describeInput_def by blast
  from 1 2 3 show ?thesis by blast
qed

text \<open>
  The claim as stated fails: with an explicit identifier and IPv6 included, the pass
  looks the IPv6 list up by name.
\<close>

theorem explicit_id_zero_lookups_counterexample:
  "PrefixListID (exampleSource\<lparr>PrefixListID := ''pl-4'', IncludeIPv6 := True\<rparr>) \<noteq> []
   \<and> describeCalls
       (snd (snd (snd (refreshOnce 1 (tableDeps exampleLists dualStack)
                         (exampleSource\<lparr>PrefixListID := ''pl-4'', IncludeIPv6 := True\<rparr>) 0))))
     = [describeInput ''com.amazonaws.global.cloudfront.origin-facing-ipv6'']"
  using dualStack_explicit_refresh
  by (simp add: exampleSource_def describeV6_def dualStackGets_def)

section \<open>Independence of the returned copy\<close>

lemma wfSlice_nil: "wfSlice h nilSlice"
  by (simp add: wfSlice_def nilSlice_def)

lemma elems_nil: "elems h nilSlice = []"
  by (simp add: elems_def nilSlice_def)

lemma length_elems: "wfSlice h sl \<Longrightarrow> length (elems h sl) = len sl"
  by (auto simp: wfSlice_def elems_def split: option.splits)

lemma appendSlice_spec:
  assumes "wfSlice h sl" and "appendSlice zero growth sl v h = (sl', h')"
  shows "wfSlice h' sl' \<and> elems h' sl' = elems h sl @ [v] \<and> brk h \<le> brk h'
       \<and> (\<forall>a. a < brk h \<and> ptr sl \<noteq> Some a \<longrightarrow> cells h' a = cells h a)
       \<and> (ptr sl' = ptr sl \<or> (\<exists>a. ptr sl' = Some a \<and> brk h \<le> a))"
proof (cases "ptr sl")
  case None
  with assms show ?thesis
    by (auto simp: appendSlice_def wfSlice_def elems_def Let_def)
next
  case (Some a)
  show ?thesis
  proof (cases "len sl < cap sl")
    case True
    with assms Some show ?thesis
      by (auto simp: appendSlice_def wfSlice_def elems_def take_Suc_conv_app_nth)
  next
    case False
    with assms Some show ?thesis
      by (auto simp: appendSlice_def wfSlice_def elems_def Let_def)
  qed
qed

lemma appendAll_spec:
  assumes "wfSlice h sl" and "ownedSince b0 sl" and "b0 \<le> brk h"
      and "appendAll zero growth sl ps h = (sl', h')"
  shows "wfSlice h' sl' \<and> elems h' sl' = elems h sl @ ps \<and> brk h \<le> brk h'
       \<and> (\<forall>a < b0. cells h' a = cells h a) \<and> ownedSince b0 sl'"
  using assms
proof (induction ps arbitrary: sl h)
  case Nil
  then show ?case by simp
next
  case (Cons p ps)
  obtain sl1 h1 where ap: "appendSlice zero growth sl p h = (sl1, h1)"
    by (cases "appendSlice zero growth sl p h")
  note sp = appendSlice_spec [OF Cons.prems(1) ap]
  have own1: "ownedSince b0 sl1"
    using sp Cons.prems(2,3) by (auto simp: ownedSince_def split: option.splits)
  have b1: "b0 \<le> brk h1" using sp Cons.prems(3) by simp
  from Cons.prems(4) ap have rest: "appendAll zero growth sl1 ps h1 = (sl', h')" by simp
  note ih = Cons.IH [OF _ own1 b1 rest]
  have keep: "\<forall>a < b0. cells h1 a = cells h a"
    using sp Cons.prems(2,3) by (auto simp: ownedSince_def split: option.splits)
  from sp ih keep show ?case by auto
qed

lemma installH_spec:
  assumes "installH zero growth s ps h = (s', h')"
  shows "wfSlice h' (currentH s') \<and> elems h' (currentH s') = ps \<and> brk h \<le> brk h'
       \<and> (\<forall>a < brk h. cells h' a = cells h a) \<and> ownedSince (brk h) (currentH s')"
proof (cases "ps = []")
  case True
  with assms show ?thesis
    by (auto simp: installH_def wfSlice_def elems_def ownedSince_def nilSlice_def)
next
  case False
  obtain all h1 where ap: "appendAll zero growth nilSlice ps h = (all, h1)"
    by (cases "appendAll zero growth nilSlice ps h")
  have "ownedSince (brk h) nilSlice" by (simp add: ownedSince_def nilSlice_def)
  from appendAll_spec [OF wfSlice_nil this _ ap] assms False ap
  show ?thesis by (auto simp: installH_def elems_nil)
qed

lemma GetIPRangesH_spec:
  assumes "wfSlice h (currentH s)" and "GetIPRangesH zero s h = (out, h1)"
  shows "ptr out = Some (brk h) \<and> wfSlice h1 out \<and> wfSlice h1 (currentH s)
       \<and> elems h1 out = elems h (currentH s) \<and> elems h1 (currentH s) = elems h (currentH s)
       \<and> ptr (currentH s) \<noteq> Some (brk h)"
  using assms
  by (auto simp: GetIPRangesH_def makeSlice_def copySlice_def wfSlice_def elems_def Let_def
      split: option.splits)

lemma storeIndex_apart:
  assumes "apart out (s, h)" and "storeIndex out i v h = Inr h'"
  shows "apart out (s, h') \<and> elems h' out = (elems h out)[i := v]
       \<and> elems h' (currentH s) = elems h (currentH s)"
  using assms
  by (auto simp: apart_def storeIndex_def wfSlice_def elems_def take_update_swap
      split: option.splits if_splits)

lemma installH_apart:
  assumes "apart out (s, h)" and "installH zero growth s ps h = (s', h')"
  shows "apart out (s', h') \<and> elems h' out = elems h out \<and> elems h' (currentH s') = ps"
proof -
  note sp = installH_spec [OF assms(2)]
  from assms(1) obtain a where a: "ptr out = Some a" "a < brk h"
    "len out \<le> cap out" "length (cells h a) = cap out"
    by (auto simp: apart_def wfSlice_def split: option.splits)
  with sp have "cells h' a = cells h a" by simp
  with a sp show ?thesis
    by (auto simp: apart_def wfSlice_def elems_def ownedSince_def split: option.splits)
qed

lemma runLater_views:
  assumes "apart out (s, h)" and "runLater zero growth out ops (s, h) = Inr (s', h')"
  shows "elems h' out = callerView (elems h out) ops
       \<and> elems h' (currentH s') = moduleView (elems h (currentH s)) ops"
  using assms
proof (induction ops arbitrary: s h)
  case Nil
  then show ?case by simp
next
  case (Cons op ops)
  show ?case
  proof (cases op)
    case (Store i v)
    with Cons.prems(2) obtain h1 where st: "storeIndex out i v h = Inr h1"
      and rest: "runLater zero growth out ops (s, h1) = Inr (s', h')"
      by (auto split: sum.splits)
    note sp = storeIndex_apart [OF Cons.prems(1) st]
    from Cons.IH [OF _ rest] sp Store show ?thesis by simp
  next
    case (InstallOf ps)
    obtain s1 h1 where ins: "installH zero growth s ps h = (s1, h1)"
      by (cases "installH zero growth s ps h")
    with Cons.prems(2) InstallOf have rest: "runLater zero growth out ops (s1, h1) = Inr (s', h')"
      by simp
    note sp = installH_apart [OF Cons.prems(1) ins]
    from Cons.IH [OF _ rest] sp InstallOf show ?thesis by simp
  qed
qed

text \<open>
  Claim C9.  On a heap where the current snapshot is a slice of an allocated array, a
  read (\<^verbatim>\<open>GetIPRanges\<close>, and \<^verbatim>\<open>snapshot\<close> alike) returns a slice with the elements of
  the current snapshot and leaves the snapshot as it was.  Whatever follows, stores of
  the caller into the returned slice and installs of the module in any order and number,
  the snapshot of the module is the one of the last install, or the one at the read if
  there was none, and the returned slice holds the elements it was returned with,
  changed by the caller's stores alone.
\<close>

theorem read_returns_independent_copy:
  assumes "wfSlice h (currentH s)"
      and "GetIPRangesH zero s h = (out, h1) \<or> snapshotH zero s h = (out, h1)"
  shows "elems h1 out = elems h (currentH s)
       \<and> elems h1 (currentH s) = elems h (currentH s)
       \<and> (\<forall>ops s' h'. runLater zero growth out ops (s, h1) = Inr (s', h') \<longrightarrow>
            elems h' (currentH s') = moduleView (elems h (currentH s)) ops
            \<and> elems h' out = callerView (elems h (currentH s)) ops)"
proof -
  from assms(2) have read: "GetIPRangesH zero s h = (out, h1)"
    by (auto simp: GetIPRangesH_def snapshotH_def)
  note sp = GetIPRangesH_spec [OF assms(1) read]
  then have ap: "apart out (s, h1)" by (auto simp: apart_def)
  show ?thesis
  proof (intro conjI allI impI)
    show "elems h1 out = elems h (currentH s)" using sp by simp
    show "elems h1 (currentH s) = elems h (currentH s)" using sp by simp
  next
    fix ops s' h'
    assume run: "runLater zero growth out ops (s, h1) = Inr (s', h')"
    from runLater_views [OF ap run] sp
    show "elems h' (currentH s') = moduleView (elems h (currentH s)) ops"
      and "elems h' out = callerView (elems h (currentH s)) ops"
      by simp_all
  qed
qed

text \<open>
  A first install of three prefixes, a read, and then a store of the caller, an install
  and another store of the caller.
\<close>

theorem read_returns_independent_copy_witness:
  "wfSlice (snd firstInstall) (currentH (fst firstInstall))
   \<and> elems (snd firstRead) (fst firstRead) = examplePrefixes
   \<and> elems (snd firstRead) (currentH (fst firstInstall)) = examplePrefixes
   \<and> (\<exists>s' h'. runLater ZeroPrefix doubling (fst firstRead) laterOps (fst firstInstall, snd firstRead)
                = Inr (s', h')
        \<and> elems h' (currentH s') = [prefix6]
        \<and> elems h' (fst firstRead)
            = [prefix6, PrefixFrom (Addr4 [205, 251, 249, 0]) 24, ZeroPrefix])"
proof -
  obtain s1 h1 where inst: "firstInstall = (s1, h1)" by (cases firstInstall)
  obtain out h2 where rd: "firstRead = (out, h2)" by (cases firstRead)
  have i1: "installH ZeroPrefix doubling \<lparr>currentH = nilSlice\<rparr> examplePrefixes emptyHeap = (s1, h1)"
    using inst by (simp add: firstInstall_def)
  note sp1 = installH_spec [OF i1]
  have wf: "wfSlice h1 (currentH s1)" and cur: "elems h1 (currentH s1) = examplePrefixes"
    using sp1 by simp_all
  have r2: "GetIPRangesH ZeroPrefix s1 h1 = (out, h2)"
    using rd unfolding firstRead_def inst by simp
  then have r1: "GetIPRangesH ZeroPrefix s1 h1 = (out, h2) \<or> snapshotH ZeroPrefix s1 h1 = (out, h2)"
    by simp
  note main = read_returns_independent_copy [OF wf r1, of doubling]
  have "len (currentH s1) = 3"
    using length_elems [OF wf] cur by (simp add: examplePrefixes_def)
  then have len: "len out = 3"
    using r2 by (auto simp: GetIPRangesH_def makeSlice_def)
  have ptr: "ptr out \<noteq> None"
    using r2 by (auto simp: GetIPRangesH_def makeSlice_def)
  obtain s3 h3 where run:
    "runLater ZeroPrefix doubling out laterOps (s1, h2) = Inr (s3, h3)"
    using len ptr
    by (cases "installH ZeroPrefix doubling s1 [prefix6]
                 (h2\<lparr>cells := (cells h2)(the (ptr out) := (cells h2 (the (ptr out)))[0 := prefix6])\<rparr>)")
       (auto simp: laterOps_def storeIndex_def split: option.splits)
  from main run have
    "elems h3 (currentH s3) = moduleView (elems h1 (currentH s1)) laterOps
     \<and> elems h3 out = callerView (elems h1 (currentH s1)) laterOps"
    by blast
  then have
    "elems h3 (currentH s3) = [prefix6]"
    "elems h3 out = [prefix6, PrefixFrom (Addr4 [205, 251, 249, 0]) 24, ZeroPrefix]"
    by (simp_all add: cur laterOps_def examplePrefixes_def)
  with main cur run wf show ?thesis
    by (simp add: inst rd)
qed

section \<open>Resolution by name\<close>

text \<open>
  Claim C10.  Without an explicit identifier, the resolver asks the provider for the
  configured name, or for the default name when none is configured.  When the provider
  answers with candidates, the result is the identifier of the first candidate whose
  name is that name exactly (and that has an identifier); a returned identifier always
  belongs to a candidate with exactly that name; and if no candidate has exactly that
  name, the result is the error "not found" carrying the name and the region.
\<close>

theorem resolve_by_name_exact_match:
  assumes "n = (if name = [] then defaultName else name)"
      and "DescribeManagedPrefixLists d ec2c
             \<lparr>Filters = [\<lparr>Name = Some ''prefix-list-name'', Values = [n]\<rparr>],
              di_MaxResults = Some 100\<rparr> w = (Inr out, w')"
      and "resolvePrefixListID d s ec2c [] name defaultName w = ((ident, err), w1, evs)"
  shows "(ident, err) =
           (case find (\<lambda>pl. pl_PrefixListName pl = Some n \<and> pl_PrefixListId pl \<noteq> None)
                   (PrefixLists out) of
              None \<Rightarrow> ([], Some (NotFoundError n (Region s)))
            | Some pl \<Rightarrow> (the (pl_PrefixListId pl), None))
       \<and> (err = None \<longrightarrow>
            (\<exists>pl \<in> set (PrefixLists out).
               pl_PrefixListName pl = Some n \<and> pl_PrefixListId pl = Some ident))
       \<and> ((\<forall>pl \<in> set (PrefixLists out). pl_PrefixListName pl \<noteq> Some n) \<longrightarrow>
            ident = [] \<and> err = Some (NotFoundError n (Region s)))
       \<and> w1 = w'"
proof -
  let ?P = "\<lambda>pl. pl_PrefixListName pl = Some n \<and> pl_PrefixListId pl \<noteq> None"
  from assms have res: "(ident, err) = scanPrefixLists n (Region s) (PrefixLists out)" "w1 = w'"
    by (auto simp: resolvePrefixListID_def describeCall_def Let_def split: if_splits)
  then have 1: "(ident, err) =
      (case find ?P (PrefixLists out) of
         None \<Rightarrow> ([], Some (NotFoundError n (Region s)))
       | Some pl \<Rightarrow> (the (pl_PrefixListId pl), None))"
    by (simp add: scanPrefixLists_find)
  have 2: "\<exists>pl \<in> set (PrefixLists out). pl_PrefixListName pl = Some n \<and> pl_PrefixListId pl = Some ident"
    if "err = None"
  proof (cases "find ?P (PrefixLists out)")
    case None
    with 1 that show ?thesis by simp
  next
    case (Some pl)
    then have "pl \<in> set (PrefixLists out)" "?P pl"
      by (auto simp: find_Some_iff)
    with 1 Some show ?thesis by auto
  qed
  have 3: "ident = [] \<and> err = Some (NotFoundError n (Region s))"
    if "\<forall>pl \<in> set (PrefixLists out). pl_PrefixListName pl \<noteq> Some n"
  proof -
    from that have "find ?P (PrefixLists out) = None" by (auto simp: find_None_iff)
    with 1 show ?thesis by simp
  qed
  from 1 2 3 res(2) show ?thesis by blast
qed

text \<open>
  The provider of the examples matches names by prefix: asked for the IPv4 name it
  returns the IPv6 list first, which the resolver skips; asked for a name that is only a
  prefix of the names it knows, the resolver finds nothing.
\<close>

theorem resolve_by_name_exact_match_witness:
  "resolvePrefixListID (tableDeps exampleLists twoPages) exampleSource () [] [] defaultPLNameV4 0
     = ((''pl-4'', None), 1, [describeV4])
   \<and> (\<exists>pl \<in> set exampleLists.
         pl_PrefixListName pl = Some defaultPLNameV4 \<and> pl_PrefixListId pl = Some ''pl-4'')
   \<and> resolvePrefixListID (tableDeps exampleLists twoPages) exampleSource ()
        [] ''com.amazonaws.global'' defaultPLNameV4 0
     = (([], Some (NotFoundError ''com.amazonaws.global'' ''us-east-1'')), 1,
        [CallDescribe (describeInput ''com.amazonaws.global'') (Inr \<lparr>PrefixLists = exampleLists\<rparr>)])"
proof -
  let ?d = "tableDeps exampleLists twoPages"
  have r1: "resolvePrefixListID ?d exampleSource () [] [] defaultPLNameV4 0
     = ((''pl-4'', None), 1, [describeV4])"
    by (simp add: pass_defs example_defs)
  have d1: "DescribeManagedPrefixLists ?d ()
             \<lparr>Filters = [\<lparr>Name = Some ''prefix-list-name'', Values = [defaultPLNameV4]\<rparr>],
              di_MaxResults = Some 100\<rparr> 0 = (Inr \<lparr>PrefixLists = exampleLists\<rparr>, 1)"
    by (simp add: pass_defs example_defs)
  have n1: "defaultPLNameV4 = (if ([] :: string) = [] then defaultPLNameV4 else [])"
    by simp
  have all: "filter (nameMatches (describeInput ''com.amazonaws.global'')) exampleLists = exampleLists"
    by (simp add: nameMatches_def describeInput_def exampleLists_def)
  have r2: "resolvePrefixListID ?d exampleSource () [] ''com.amazonaws.global'' defaultPLNameV4 0
     = (([], Some (NotFoundError ''com.amazonaws.global'' ''us-east-1'')), 1,
        [CallDescribe (describeInput ''com.amazonaws.global'') (Inr \<lparr>PrefixLists = exampleLists\<rparr>)])"
    by (simp add: pass_defs example_defs all) (simp add: exampleLists_def)
  have d2: "DescribeManagedPrefixLists ?d ()
             \<lparr>Filters = [\<lparr>Name = Some ''prefix-list-name'', Values = [''com.amazonaws.global'']\<rparr>],
              di_MaxResults = Some 100\<rparr> 0 = (Inr \<lparr>PrefixLists = exampleLists\<rparr>, 1)"
    by (simp add: pass_defs example_defs all)
  have n2: "''com.amazonaws.global''
              = (if ''com.amazonaws.global'' = [] then defaultPLNameV4 else ''com.amazonaws.global'')"
    by simp
  from resolve_by_name_exact_match [OF n1 d1 r1]
  have "\<exists>pl \<in> set exampleLists.
         pl_PrefixListName pl = Some defaultPLNameV4 \<and> pl_PrefixListId pl = Some ''pl-4''"
    by simp
  moreover from resolve_by_name_exact_match [OF n2 d2 r2] have True by simp
  ultimately show ?thesis using r1 r2 by simp
qed

end
